theory Spec2Isabelle
  imports Main "HOL-Library.Word" "HOL-Library.AList"
begin

unbundle bit_operations_syntax

section \<open>Collective rotation-key generation (dbfv/rotkey_gen.go)\<close>

subsection \<open>Data model\<close>

text \<open>
  Go's \<open>uint64\<close> is \<open>64 word\<close>. A \<open>ring.Poly\<close> is its \<open>Coeffs\<close> field: one row of
  coefficients per prime of the modulus chain. A \<open>*ring.Poly\<close> is an address into an
  explicit store, so that aliasing is visible; address \<open>0\<close> is the nil pointer.
\<close>

type_synonym u64 = "64 word"
type_synonym poly = "u64 list list"
type_synonym ptr = nat

definition nil :: ptr where
  "nil = 0"

text \<open>A Go run-time panic. The index panic carries the offending index and the length
  of the slice, as the run-time's message does. \<open>BadShape\<close> stands for the panic of a
  backend routine handed a polynomial that does not have the dimensions of its context.\<close>

datatype error = IndexOutOfRange nat nat | NilDeref | BadShape

definition bindE :: "error + 'a \<Rightarrow> ('a \<Rightarrow> error + 'b) \<Rightarrow> error + 'b" where
  "bindE m f = (case m of Inl e \<Rightarrow> Inl e | Inr x \<Rightarrow> f x)"

record ring_context =
  ctxN :: u64
  Modulus :: "u64 list"

text \<open>
  The \<open>bfv.BfvContext\<close> type is declared outside the files at hand; the generator only
  reads it through its accessors, which are the fields here. \<open>GaussianSampler\<close> is the
  tape of polynomials the sampler hands out, one per call of \<open>SampleNTTNew\<close>.
\<close>

record bfv_context =
  bfvN :: u64
  Alpha :: nat
  Beta :: nat
  ContextQ :: ring_context
  ContextKeys :: ring_context
  KeySwitchPrimes :: "u64 list"
  GaussianSampler :: "nat \<Rightarrow> poly"

text \<open>An aggregated key is a slice of pairs of polynomial pointers.\<close>

type_synonym swkey = "(ptr \<times> ptr) list"

text \<open>The two Go maps are association lists without repeated keys; \<open>rot_row\<close> is a
  slice that may be nil.\<close>

record RKG =
  bfvContext :: bfv_context
  gen :: u64
  genInv :: u64
  galElRotRow :: u64
  galElRotColLeft :: "u64 list"
  galElRotColRight :: "u64 list"
  rot_col_L :: "(u64 \<times> swkey) list"
  rot_col_R :: "(u64 \<times> swkey) list"
  rot_row :: "swkey option"
  polypool :: ptr

text \<open>
  The mutable world outside the generator: the store of polynomials (address \<open>a > 0\<close>
  is cell \<open>a - 1\<close>; allocation appends) and the number of samples already taken from
  the Gaussian sampler.
\<close>

record world =
  heap :: "poly list"
  drawn :: nat

definition valid :: "world \<Rightarrow> ptr \<Rightarrow> bool" where
  "valid w p \<longleftrightarrow> 0 < p \<and> p \<le> length (heap w)"

definition cell :: "world \<Rightarrow> ptr \<Rightarrow> poly" where
  "cell w p = heap w ! (p - 1)"

definition alloc :: "poly \<Rightarrow> world \<Rightarrow> ptr \<times> world" where
  "alloc x w = (Suc (length (heap w)), w\<lparr>heap := heap w @ [x]\<rparr>)"

definition store :: "ptr \<Rightarrow> poly \<Rightarrow> world \<Rightarrow> world" where
  "store p x w = w\<lparr>heap := (heap w)[p - 1 := x]\<rparr>"

definition shaped :: "ring_context \<Rightarrow> poly \<Rightarrow> bool" where
  "shaped c x \<longleftrightarrow> length x = length (Modulus c) \<and> (\<forall>r \<in> set x. length r = unat (ctxN c))"

text \<open>Dereferencing a polynomial pointer inside a routine of the ring backend.\<close>

definition load :: "ring_context \<Rightarrow> world \<Rightarrow> ptr \<Rightarrow> error + poly" where
  "load c w p =
     (if \<not> valid w p then Inl NilDeref
      else if shaped c (cell w p) then Inr (cell w p) else Inl BadShape)"

subsection \<open>The ring backend\<close>

text \<open>Modelled from the spec: \<open>ring.ModExp\<close>, of the ring backend, which is not among
  the files at hand. The spec describes the inverse as \<open>gen^{2N-1} mod 2N\<close>: modular
  exponentiation \<open>x^e mod p\<close>.\<close>

definition ModExp :: "u64 \<Rightarrow> u64 \<Rightarrow> u64 \<Rightarrow> u64" where
  "ModExp x e p = word_of_nat ((unat x ^ unat e) mod unat p)"

text \<open>Modelled from the spec: \<open>ring.CRed\<close>, the backend's reduction of a sum of two
  residues (the spec's modular add): one conditional subtraction of the modulus.\<close>

definition CRed :: "u64 \<Rightarrow> u64 \<Rightarrow> u64" where
  "CRed a q = (if q \<le> a then a - q else a)"

text \<open>Modelled from the spec: the fast-multiplication (Montgomery) representation of
  the backend, with the radix \<open>2^64\<close> of a 64-bit machine word. \<open>Rinv q\<close> is the inverse
  of the radix modulo an odd \<open>q\<close>, since \<open>(q + 1) div 2\<close> is the inverse of \<open>2\<close>.\<close>

definition Rinv :: "nat \<Rightarrow> nat" where
  "Rinv q = ((q + 1) div 2) ^ 64 mod q"

definition MFormC :: "u64 \<Rightarrow> u64 \<Rightarrow> u64" where
  "MFormC a q = word_of_nat ((unat a * 2 ^ 64) mod unat q)"

definition InvMFormC :: "u64 \<Rightarrow> u64 \<Rightarrow> u64" where
  "InvMFormC a q = word_of_nat ((unat a * Rinv (unat q)) mod unat q)"

definition MRed :: "u64 \<Rightarrow> u64 \<Rightarrow> u64 \<Rightarrow> u64" where
  "MRed x y q = word_of_nat ((unat x * unat y * Rinv (unat q)) mod unat q)"

text \<open>Modelled from the spec: the coefficient operations behind the backend's modular
  subtraction, scaling by a constant, multiply-and-subtract in fast representation,
  addition without reduction, and full reduction.\<close>

definition SubC :: "u64 \<Rightarrow> u64 \<Rightarrow> u64 \<Rightarrow> u64" where
  "SubC a b q = CRed ((a + q) - b) q"

definition MulScalarC :: "u64 \<Rightarrow> u64 \<Rightarrow> u64 \<Rightarrow> u64" where
  "MulScalarC s a q = word_of_nat ((unat a * unat s) mod unat q)"

definition MulSubC :: "u64 \<Rightarrow> u64 \<Rightarrow> u64 \<Rightarrow> u64 \<Rightarrow> u64" where
  "MulSubC a b x q = CRed (x + (q - MRed a b q)) q"

definition AddNoModC :: "u64 \<Rightarrow> u64 \<Rightarrow> u64 \<Rightarrow> u64" where
  "AddNoModC a b q = a + b"

definition ReduceC :: "u64 \<Rightarrow> u64 \<Rightarrow> u64" where
  "ReduceC a q = a mod q"

text \<open>A backend routine works row by row, each row with its own prime.\<close>

definition rows1 :: "(u64 \<Rightarrow> u64 \<Rightarrow> u64) \<Rightarrow> ring_context \<Rightarrow> poly \<Rightarrow> poly" where
  "rows1 f c a = map2 (\<lambda>q r. map (\<lambda>x. f x q) r) (Modulus c) a"

definition rows2 :: "(u64 \<Rightarrow> u64 \<Rightarrow> u64 \<Rightarrow> u64) \<Rightarrow> ring_context \<Rightarrow> poly \<Rightarrow> poly \<Rightarrow> poly" where
  "rows2 f c a b = map2 (\<lambda>q (ra, rb). map2 (\<lambda>x y. f x y q) ra rb) (Modulus c) (zip a b)"

definition rows3 :: "(u64 \<Rightarrow> u64 \<Rightarrow> u64 \<Rightarrow> u64 \<Rightarrow> u64) \<Rightarrow> ring_context
    \<Rightarrow> poly \<Rightarrow> poly \<Rightarrow> poly \<Rightarrow> poly" where
  "rows3 f c a b x =
     map2 (\<lambda>q (ra, rb, rx). map2 (\<lambda>u (v, y). f u v y q) ra (zip rb rx))
       (Modulus c) (zip a (zip b x))"

text \<open>Modelled from the spec: the routines of the ring backend that the generator
  calls. Each reads its operands, then overwrites its last argument in place.\<close>

definition op1 :: "(u64 \<Rightarrow> u64 \<Rightarrow> u64) \<Rightarrow> ring_context \<Rightarrow> ptr \<Rightarrow> ptr \<Rightarrow> world
    \<Rightarrow> error + world" where
  "op1 f c p1 p2 w =
     bindE (load c w p1) (\<lambda>a. bindE (load c w p2) (\<lambda>_. Inr (store p2 (rows1 f c a) w)))"

definition op2 :: "(u64 \<Rightarrow> u64 \<Rightarrow> u64 \<Rightarrow> u64) \<Rightarrow> ring_context \<Rightarrow> ptr \<Rightarrow> ptr \<Rightarrow> ptr \<Rightarrow> world
    \<Rightarrow> error + world" where
  "op2 f c p1 p2 p3 w =
     bindE (load c w p1) (\<lambda>a. bindE (load c w p2) (\<lambda>b. bindE (load c w p3) (\<lambda>_.
       Inr (store p3 (rows2 f c a b) w))))"

definition Sub :: "ring_context \<Rightarrow> ptr \<Rightarrow> ptr \<Rightarrow> ptr \<Rightarrow> world \<Rightarrow> error + world" where
  "Sub c p1 p2 p3 w = op2 SubC c p1 p2 p3 w"

definition AddNoMod :: "ring_context \<Rightarrow> ptr \<Rightarrow> ptr \<Rightarrow> ptr \<Rightarrow> world \<Rightarrow> error + world" where
  "AddNoMod c p1 p2 p3 w = op2 AddNoModC c p1 p2 p3 w"

definition MulScalar :: "ring_context \<Rightarrow> ptr \<Rightarrow> u64 \<Rightarrow> ptr \<Rightarrow> world \<Rightarrow> error + world" where
  "MulScalar c p1 s p2 w = op1 (MulScalarC s) c p1 p2 w"

definition MForm :: "ring_context \<Rightarrow> ptr \<Rightarrow> ptr \<Rightarrow> world \<Rightarrow> error + world" where
  "MForm c p1 p2 w = op1 MFormC c p1 p2 w"

definition InvMForm :: "ring_context \<Rightarrow> ptr \<Rightarrow> ptr \<Rightarrow> world \<Rightarrow> error + world" where
  "InvMForm c p1 p2 w = op1 InvMFormC c p1 p2 w"

definition Reduce :: "ring_context \<Rightarrow> ptr \<Rightarrow> ptr \<Rightarrow> world \<Rightarrow> error + world" where
  "Reduce c p1 p2 w = op1 ReduceC c p1 p2 w"

definition MulCoeffsMontgomeryAndSub :: "ring_context \<Rightarrow> ptr \<Rightarrow> ptr \<Rightarrow> ptr \<Rightarrow> world
    \<Rightarrow> error + world" where
  "MulCoeffsMontgomeryAndSub c p1 p2 p3 w =
     bindE (load c w p1) (\<lambda>a. bindE (load c w p2) (\<lambda>b. bindE (load c w p3) (\<lambda>x.
       Inr (store p3 (rows3 MulSubC c a b x) w))))"

text \<open>Modelled from the spec: \<open>ring.PermuteNTT\<close>, the NTT-domain automorphism of the
  backend. The spec does not give the index map, so the permutation of a polynomial by
  a Galois element is the parameter \<open>perm\<close>.\<close>

definition PermuteNTT :: "(u64 \<Rightarrow> poly \<Rightarrow> poly) \<Rightarrow> ring_context \<Rightarrow> ptr \<Rightarrow> u64 \<Rightarrow> ptr \<Rightarrow> world
    \<Rightarrow> error + world" where
  "PermuteNTT perm c polIn g polOut w =
     bindE (load c w polIn) (\<lambda>a. bindE (load c w polOut) (\<lambda>_.
       Inr (store polOut (perm g a) w)))"

text \<open>Modelled from the spec: \<open>NewPoly\<close>, \<open>CopyNew\<close> and the sampler's \<open>SampleNTTNew\<close>
  allocate a polynomial: zero, a copy of the receiver, the next draw.\<close>

definition NewPoly :: "ring_context \<Rightarrow> poly" where
  "NewPoly c = replicate (length (Modulus c)) (replicate (unat (ctxN c)) 0)"

definition CopyNew :: "ptr \<Rightarrow> world \<Rightarrow> error + (ptr \<times> world)" where
  "CopyNew p w = (if valid w p then Inr (alloc (cell w p) w) else Inl NilDeref)"

definition SampleNTTNew :: "bfv_context \<Rightarrow> world \<Rightarrow> ptr \<times> world" where
  "SampleNTTNew bc w = alloc (GaussianSampler bc (drawn w)) (w\<lparr>drawn := Suc (drawn w)\<rparr>)"

subsection \<open>Construction: the Galois element tables\<close>

text \<open>The loop \<open>for i := 1; i < N>>1; i++\<close> of \<open>NewRKG\<close>, on both tables at once.\<close>

function genTables :: "u64 \<Rightarrow> u64 \<Rightarrow> u64 \<Rightarrow> nat \<Rightarrow> nat \<Rightarrow> u64 list \<times> u64 list
    \<Rightarrow> u64 list \<times> u64 list" where
  "genTables g gi msk half i (L, R) =
     (if i < half
      then genTables g gi msk half (Suc i)
             (L[i := (L ! (i - 1) * g) AND msk], R[i := (R ! (i - 1) * gi) AND msk])
      else (L, R))"
  by pat_completeness auto
termination
  by (relation "measure (\<lambda>(g, gi, msk, half, i, T). half - i)") auto

declare genTables.simps [simp del]

text \<open>Writing \<open>galElRotColRight[0]\<close> panics when the tables are empty (\<open>N < 2\<close>).\<close>

definition NewRKG :: "bfv_context \<Rightarrow> world \<Rightarrow> error + (RKG \<times> world)" where
  "NewRKG bc w =
     (let (pool, w1) = alloc (NewPoly (ContextKeys bc)) w;
          n = bfvN bc;
          g = (5 :: u64);
          gi = ModExp g (push_bit 1 n - 1) (push_bit 1 n);
          msk = push_bit 1 n - 1;
          half = unat (drop_bit 1 n)
      in if half = 0 then Inl (IndexOutOfRange 0 0)
         else
           let (L, R) = genTables g gi msk half 1
                          ((replicate half 0)[0 := 1], (replicate half 0)[0 := 1])
           in Inr (\<lparr>bfvContext = bc, gen = g, genInv = gi,
                     galElRotRow = push_bit 1 n - 1,
                     galElRotColLeft = L, galElRotColRight = R,
                     rot_col_L = [], rot_col_R = [], rot_row = None,
                     polypool = pool\<rparr>, w1))"

subsection \<open>Share generation\<close>

text \<open>
  The innermost loop of \<open>genswitchkey\<close>, over the coefficients \<open>w < N\<close> of row \<open>index\<close>:
  \<open>evakey[i].Coeffs[index][w] = CRed(evakey[i].Coeffs[index][w] +
  rkg.polypool.Coeffs[index][w], context.Modulus[index])\<close>. With \<open>N = 0\<close> nothing is
  indexed. The addition is Go's, on \<open>uint64\<close>.
\<close>

definition injectRow :: "ring_context \<Rightarrow> ptr \<Rightarrow> ptr \<Rightarrow> nat \<Rightarrow> world \<Rightarrow> error + world" where
  "injectRow c ev pool index w =
     (if unat (ctxN c) = 0 then Inr w
      else bindE (load c w ev) (\<lambda>e. bindE (load c w pool) (\<lambda>p.
        if length (Modulus c) \<le> index
        then Inl (IndexOutOfRange index (length (Modulus c)))
        else Inr (store ev
               (e[index := map2 (\<lambda>x y. CRed (x + y) (Modulus c ! index)) (e ! index) (p ! index)])
               w))))"

text \<open>The loop over \<open>j < Alpha\<close>: the row is written first, the test that leaves the
  loop comes after it.\<close>

function injectLoop :: "RKG \<Rightarrow> ptr \<Rightarrow> nat \<Rightarrow> nat \<Rightarrow> world \<Rightarrow> error + world" where
  "injectLoop rkg ev i j w =
     (if j < Alpha (bfvContext rkg)
      then (case injectRow (ContextKeys (bfvContext rkg)) ev (polypool rkg)
                   (i * Alpha (bfvContext rkg) + j) w of
              Inl e \<Rightarrow> Inl e
            | Inr w1 \<Rightarrow>
                if i * Alpha (bfvContext rkg) + j = length (Modulus (ContextQ (bfvContext rkg)))
                then Inr w1
                else injectLoop rkg ev i (Suc j) w1)
      else Inr w)"
  by pat_completeness auto
termination
  by (relation "measure (\<lambda>(rkg, ev, i, j, w). Alpha (bfvContext rkg) - j)") auto

declare injectLoop.simps [simp del]

text \<open>The loop over the digits \<open>i < Beta\<close>.\<close>

function digitLoop :: "RKG \<Rightarrow> ptr \<Rightarrow> ptr list \<Rightarrow> nat \<Rightarrow> ptr list \<Rightarrow> world
    \<Rightarrow> error + (ptr list \<times> world)" where
  "digitLoop rkg sk_out crp i evakey w =
     (if i < Beta (bfvContext rkg)
      then (case SampleNTTNew (bfvContext rkg) w of (ev, w1) \<Rightarrow>
             (case injectLoop rkg ev i 0 w1 of
                Inl e \<Rightarrow> Inl e
              | Inr w2 \<Rightarrow>
                  if length crp \<le> i then Inl (IndexOutOfRange i (length crp))
                  else (case MulCoeffsMontgomeryAndSub (ContextKeys (bfvContext rkg))
                               (crp ! i) sk_out ev w2 of
                          Inl e \<Rightarrow> Inl e
                        | Inr w3 \<Rightarrow>
                            (case MForm (ContextKeys (bfvContext rkg)) ev ev w3 of
                               Inl e \<Rightarrow> Inl e
                             | Inr w4 \<Rightarrow>
                                 digitLoop rkg sk_out crp (Suc i) (evakey[i := ev]) w4))))
      else Inr (evakey, w))"
  by pat_completeness auto
termination
  by (relation "measure (\<lambda>(rkg, sk_out, crp, i, evakey, w). Beta (bfvContext rkg) - i)") auto

declare digitLoop.simps [simp del]

text \<open>\<open>genswitchkey\<close> never reads its parameter \<open>sk_in\<close>: the injection reads the
  scratch polynomial \<open>rkg.polypool\<close>.\<close>

definition genswitchkey :: "RKG \<Rightarrow> ptr \<Rightarrow> ptr \<Rightarrow> ptr list \<Rightarrow> world
    \<Rightarrow> error + (ptr list \<times> world)" where
  "genswitchkey rkg sk_in sk_out crp w =
     digitLoop rkg sk_out crp 0 (replicate (Beta (bfvContext rkg)) nil) w"

text \<open>\<open>for _, pj := range KeySwitchPrimes { context.MulScalar(polypool, pj, polypool) }\<close>\<close>

fun scaleLoop :: "ring_context \<Rightarrow> ptr \<Rightarrow> u64 list \<Rightarrow> world \<Rightarrow> error + world" where
  "scaleLoop c p [] w = Inr w"
| "scaleLoop c p (pj # ps) w =
     (case MulScalar c p pj p w of Inl e \<Rightarrow> Inl e | Inr w1 \<Rightarrow> scaleLoop c p ps w1)"

text \<open>The three entry points have the same body after the choice of the Galois
  element: permute, subtract, scale by the key-switching primes, leave the fast
  representation, and call \<open>genswitchkey\<close> on the scratch polynomial.\<close>

definition rotShare :: "(u64 \<Rightarrow> poly \<Rightarrow> poly) \<Rightarrow> RKG \<Rightarrow> ptr \<Rightarrow> u64 \<Rightarrow> ptr list \<Rightarrow> world
    \<Rightarrow> error + (ptr list \<times> world)" where
  "rotShare perm rkg sk galEl crp w =
     (let context = ContextKeys (bfvContext rkg) in
      bindE (PermuteNTT perm context sk galEl (polypool rkg) w) (\<lambda>w1.
      bindE (Sub context (polypool rkg) sk (polypool rkg) w1) (\<lambda>w2.
      bindE (scaleLoop context (polypool rkg) (KeySwitchPrimes (bfvContext rkg)) w2) (\<lambda>w3.
      bindE (InvMForm context (polypool rkg) (polypool rkg) w3) (\<lambda>w4.
      genswitchkey rkg (polypool rkg) sk crp w4)))))"

definition GenShareRotLeft :: "(u64 \<Rightarrow> poly \<Rightarrow> poly) \<Rightarrow> RKG \<Rightarrow> ptr \<Rightarrow> u64 \<Rightarrow> ptr list \<Rightarrow> world
    \<Rightarrow> error + (ptr list \<times> world)" where
  "GenShareRotLeft perm rkg sk k crp w =
     (let k' = k AND (drop_bit 1 (ctxN (ContextKeys (bfvContext rkg))) - 1) in
      if length (galElRotColLeft rkg) \<le> unat k'
      then Inl (IndexOutOfRange (unat k') (length (galElRotColLeft rkg)))
      else rotShare perm rkg sk (galElRotColLeft rkg ! unat k') crp w)"

definition GenShareRotRight :: "(u64 \<Rightarrow> poly \<Rightarrow> poly) \<Rightarrow> RKG \<Rightarrow> ptr \<Rightarrow> u64 \<Rightarrow> ptr list \<Rightarrow> world
    \<Rightarrow> error + (ptr list \<times> world)" where
  "GenShareRotRight perm rkg sk k crp w =
     (let k' = k AND (drop_bit 1 (ctxN (ContextKeys (bfvContext rkg))) - 1) in
      if length (galElRotColRight rkg) \<le> unat k'
      then Inl (IndexOutOfRange (unat k') (length (galElRotColRight rkg)))
      else rotShare perm rkg sk (galElRotColRight rkg ! unat k') crp w)"

definition GenShareRotRow :: "(u64 \<Rightarrow> poly \<Rightarrow> poly) \<Rightarrow> RKG \<Rightarrow> ptr \<Rightarrow> ptr list \<Rightarrow> world
    \<Rightarrow> error + (ptr list \<times> world)" where
  "GenShareRotRow perm rkg sk crp w = rotShare perm rkg sk (galElRotRow rkg) crp w"

subsection \<open>Aggregation\<close>

text \<open>The loop \<open>for j := 1; j < len(samples); j++\<close>; on a non-negative \<open>int\<close>,
  \<open>j&7\<close> is \<open>j mod 8\<close>.\<close>

function aggLoop :: "ring_context \<Rightarrow> ptr \<Rightarrow> ptr list list \<Rightarrow> nat \<Rightarrow> nat \<Rightarrow> world
    \<Rightarrow> error + world" where
  "aggLoop c b samples i j w =
     (if j < length samples
      then if length (samples ! j) \<le> i
           then Inl (IndexOutOfRange i (length (samples ! j)))
           else (case AddNoMod c b (samples ! j ! i) b w of
                   Inl e \<Rightarrow> Inl e
                 | Inr w1 \<Rightarrow>
                     if j mod 8 = 7
                     then (case Reduce c b b w1 of
                             Inl e \<Rightarrow> Inl e
                           | Inr w2 \<Rightarrow> aggLoop c b samples i (Suc j) w2)
                     else aggLoop c b samples i (Suc j) w1)
      else Inr w)"
  by pat_completeness auto
termination
  by (relation "measure (\<lambda>(c, b, samples, i, j, w). length samples - j)") auto

declare aggLoop.simps [simp del]

function recvLoop :: "RKG \<Rightarrow> ptr list list \<Rightarrow> ptr list \<Rightarrow> nat \<Rightarrow> swkey \<Rightarrow> world
    \<Rightarrow> error + (swkey \<times> world)" where
  "recvLoop rkg samples crp i receiver w =
     (if i < Beta (bfvContext rkg)
      then if samples = [] then Inl (IndexOutOfRange 0 0)
           else if length (samples ! 0) \<le> i
           then Inl (IndexOutOfRange i (length (samples ! 0)))
           else (case CopyNew (samples ! 0 ! i) w of
                   Inl e \<Rightarrow> Inl e
                 | Inr (b, w1) \<Rightarrow>
                     if length crp \<le> i then Inl (IndexOutOfRange i (length crp))
                     else (case CopyNew (crp ! i) w1 of
                        Inl e \<Rightarrow> Inl e
                      | Inr (a, w2) \<Rightarrow>
                         (case MForm (ContextKeys (bfvContext rkg)) a a w2 of
                            Inl e \<Rightarrow> Inl e
                          | Inr w3 \<Rightarrow>
                             (case aggLoop (ContextKeys (bfvContext rkg)) b samples i 1 w3 of
                                Inl e \<Rightarrow> Inl e
                              | Inr w4 \<Rightarrow>
                                 (case (if (length samples - 1) mod 8 \<noteq> 7
                                        then Reduce (ContextKeys (bfvContext rkg)) b b w4
                                        else Inr w4) of
                                    Inl e \<Rightarrow> Inl e
                                  | Inr w5 \<Rightarrow>
                                     recvLoop rkg samples crp (Suc i)
                                       (receiver[i := (b, a)]) w5)))))
      else Inr (receiver, w))"
  by pat_completeness auto
termination
  by (relation "measure (\<lambda>(rkg, samples, crp, i, receiver, w). Beta (bfvContext rkg) - i)") auto

declare recvLoop.simps [simp del]

definition aggregate :: "RKG \<Rightarrow> ptr list list \<Rightarrow> ptr list \<Rightarrow> world \<Rightarrow> error + (swkey \<times> world)" where
  "aggregate rkg samples crp w =
     recvLoop rkg samples crp 0 (replicate (Beta (bfvContext rkg)) (nil, nil)) w"

definition AggregateRotColL :: "RKG \<Rightarrow> ptr list list \<Rightarrow> u64 \<Rightarrow> ptr list \<Rightarrow> world
    \<Rightarrow> error + (RKG \<times> world)" where
  "AggregateRotColL rkg samples k crp w =
     (let k' = k AND (drop_bit 1 (bfvN (bfvContext rkg)) - 1) in
      bindE (aggregate rkg samples crp w) (\<lambda>(r, w1).
        Inr (rkg\<lparr>rot_col_L := AList.update k' r (rot_col_L rkg)\<rparr>, w1)))"

definition AggregateRotColR :: "RKG \<Rightarrow> ptr list list \<Rightarrow> u64 \<Rightarrow> ptr list \<Rightarrow> world
    \<Rightarrow> error + (RKG \<times> world)" where
  "AggregateRotColR rkg samples k crp w =
     (let k' = k AND (drop_bit 1 (bfvN (bfvContext rkg)) - 1) in
      bindE (aggregate rkg samples crp w) (\<lambda>(r, w1).
        Inr (rkg\<lparr>rot_col_R := AList.update k' r (rot_col_R rkg)\<rparr>, w1)))"

definition AggregateRotRow :: "RKG \<Rightarrow> ptr list list \<Rightarrow> ptr list \<Rightarrow> world
    \<Rightarrow> error + (RKG \<times> world)" where
  "AggregateRotRow rkg samples crp w =
     bindE (aggregate rkg samples crp w) (\<lambda>(r, w1). Inr (rkg\<lparr>rot_row := Some r\<rparr>, w1))"

text \<open>The sum the spec describes, reducing after every addition.\<close>

definition AddModC :: "u64 \<Rightarrow> u64 \<Rightarrow> u64 \<Rightarrow> u64" where
  "AddModC a b q = ReduceC (AddNoModC a b q) q"

definition naive_sum :: "ring_context \<Rightarrow> poly list \<Rightarrow> poly" where
  "naive_sum c ps = foldl (rows2 AddModC c) (rows1 ReduceC c (hd ps)) (tl ps)"

subsection \<open>Finalization\<close>

text \<open>Modelled from the spec: \<open>bfv.RotationKeys\<close> with \<open>NewRotationKeysEmpty\<close>,
  \<open>SetRotColLeft\<close>, \<open>SetRotColRight\<close> and \<open>SetRotRow\<close>, declared outside the files at
  hand: the key set indexed by rotation kind and amount, empty at first, each setter
  recording the key it is given.\<close>

record RotationKeys =
  evakey_rot_col_L :: "u64 \<Rightarrow> swkey option"
  evakey_rot_col_R :: "u64 \<Rightarrow> swkey option"
  evakey_rot_row :: "swkey option"

definition NewRotationKeysEmpty :: RotationKeys where
  "NewRotationKeysEmpty =
     \<lparr>evakey_rot_col_L = Map.empty, evakey_rot_col_R = Map.empty, evakey_rot_row = None\<rparr>"

definition SetRotColLeft :: "RotationKeys \<Rightarrow> swkey \<Rightarrow> u64 \<Rightarrow> RotationKeys" where
  "SetRotColLeft rotkey evakey k =
     rotkey\<lparr>evakey_rot_col_L := (evakey_rot_col_L rotkey)(k \<mapsto> evakey)\<rparr>"

definition SetRotColRight :: "RotationKeys \<Rightarrow> swkey \<Rightarrow> u64 \<Rightarrow> RotationKeys" where
  "SetRotColRight rotkey evakey k =
     rotkey\<lparr>evakey_rot_col_R := (evakey_rot_col_R rotkey)(k \<mapsto> evakey)\<rparr>"

definition SetRotRow :: "RotationKeys \<Rightarrow> swkey \<Rightarrow> RotationKeys" where
  "SetRotRow rotkey evakey = rotkey\<lparr>evakey_rot_row := Some evakey\<rparr>"

text \<open>
  \<open>for k := range m { set(m[k], k); delete(m, k) }\<close>: each round takes a key still in
  the map, hands its entry to the setter and deletes it, until the map is empty.
\<close>

function drain :: "(RotationKeys \<Rightarrow> swkey \<Rightarrow> u64 \<Rightarrow> RotationKeys) \<Rightarrow> RotationKeys
    \<Rightarrow> (u64 \<times> swkey) list \<Rightarrow> RotationKeys \<times> (u64 \<times> swkey) list" where
  "drain set_key rotkey [] = (rotkey, [])"
| "drain set_key rotkey ((k, v) # m) =
     drain set_key (set_key rotkey v k) (AList.delete k ((k, v) # m))"
  by pat_completeness auto
termination
  by (relation "measure (\<lambda>(set_key, rotkey, m). length m)")
    (auto simp: less_Suc_eq_le AList.length_delete_le)

definition Finalize :: "RKG \<Rightarrow> RotationKeys \<times> RKG" where
  "Finalize rkg =
     (let rotkey = NewRotationKeysEmpty;
          (rotkey1, mL) = drain SetRotColLeft rotkey (rot_col_L rkg);
          (rotkey2, mR) = drain SetRotColRight rotkey1 (rot_col_R rkg)
      in case rot_row rkg of
           Some r \<Rightarrow> (SetRotRow rotkey2 r,
                      rkg\<lparr>rot_col_L := mL, rot_col_R := mR, rot_row := None\<rparr>)
         | None \<Rightarrow> (rotkey2, rkg\<lparr>rot_col_L := mL, rot_col_R := mR\<rparr>))"

subsection \<open>The values the loops compute\<close>

text \<open>
  The loops above work on the store. What they leave in it is described by functions on
  polynomials that follow the same control flow: \<open>prepared\<close> is what an entry point leaves
  in the scratch polynomial, \<open>injected\<close> what the loop over \<open>j\<close> makes of the noise of
  digit \<open>i\<close>, \<open>digit\<close> one finished digit of a share; \<open>accumulate\<close> and \<open>summed\<close> follow the
  summation of \<open>aggregate\<close>, \<open>accC\<close> on one coefficient; \<open>reduced\<close> says that every
  coefficient is below the prime of its row.
\<close>

definition prepared :: "(u64 \<Rightarrow> poly \<Rightarrow> poly) \<Rightarrow> bfv_context \<Rightarrow> u64 \<Rightarrow> poly \<Rightarrow> poly" where
  "prepared perm bc g s =
     rows1 InvMFormC (ContextKeys bc)
       (foldl (\<lambda>x pj. rows1 (MulScalarC pj) (ContextKeys bc) x)
          (rows2 SubC (ContextKeys bc) (perm g s) s) (KeySwitchPrimes bc))"

function injected :: "bfv_context \<Rightarrow> poly \<Rightarrow> nat \<Rightarrow> nat \<Rightarrow> poly \<Rightarrow> poly" where
  "injected bc pool i j e =
     (if j < Alpha bc
      then (let index = i * Alpha bc + j;
                e1 = e[index := map2 (\<lambda>x y. CRed (x + y) (Modulus (ContextKeys bc) ! index))
                                  (e ! index) (pool ! index)]
            in if index = length (Modulus (ContextQ bc)) then e1
               else injected bc pool i (Suc j) e1)
      else e)"
  by pat_completeness auto
termination
  by (relation "measure (\<lambda>(bc, pool, i, j, e). Alpha bc - j)") auto

declare injected.simps [simp del]

definition digit :: "bfv_context \<Rightarrow> poly \<Rightarrow> poly \<Rightarrow> poly \<Rightarrow> nat \<Rightarrow> poly \<Rightarrow> poly" where
  "digit bc pool sk_out crp_i i e =
     rows1 MFormC (ContextKeys bc)
       (rows3 MulSubC (ContextKeys bc) crp_i sk_out (injected bc pool i 0 e))"

definition reduced :: "ring_context \<Rightarrow> poly \<Rightarrow> bool" where
  "reduced c p \<longleftrightarrow> list_all2 (\<lambda>q r. list_all (\<lambda>x. x < q) r) (Modulus c) p"

fun accumulate :: "ring_context \<Rightarrow> nat \<Rightarrow> poly \<Rightarrow> poly list \<Rightarrow> poly" where
  "accumulate c j acc [] = acc"
| "accumulate c j acc (x # xs) =
     accumulate c (Suc j)
       (if j mod 8 = 7 then rows1 ReduceC c (rows2 AddNoModC c acc x)
        else rows2 AddNoModC c acc x) xs"

definition summed :: "ring_context \<Rightarrow> poly list \<Rightarrow> poly" where
  "summed c ps =
     (if (length ps - 1) mod 8 \<noteq> 7 then rows1 ReduceC c (accumulate c 1 (hd ps) (tl ps))
      else accumulate c 1 (hd ps) (tl ps))"

fun accC :: "u64 \<Rightarrow> nat \<Rightarrow> u64 \<Rightarrow> u64 list \<Rightarrow> u64" where
  "accC q j a [] = a"
| "accC q j a (x # xs) =
     accC q (Suc j) (if j mod 8 = 7 then ReduceC (AddNoModC a x q) q else AddNoModC a x q) xs"

subsection \<open>Results by value\<close>

text \<open>The polynomials behind the pointers that share generation returns, and behind the
  first components of an aggregated key; nothing after a panic.\<close>

definition share_polys :: "error + ptr list \<times> world \<Rightarrow> poly list" where
  "share_polys r = (case r of Inl e \<Rightarrow> [] | Inr (evakey, w) \<Rightarrow> map (cell w) evakey)"

definition key_b :: "error + swkey \<times> world \<Rightarrow> poly list" where
  "key_b r = (case r of Inl e \<Rightarrow> [] | Inr (receiver, w) \<Rightarrow> map (\<lambda>(b, a). cell w b) receiver)"

text \<open>
  The spec's formula for digit \<open>i\<close> of a share, coefficient by coefficient in the NTT
  domain: \<open>r * (noise + skIn * factor) - crp_i * skOut\<close> modulo the prime of the row, the
  factor being \<open>1\<close> on the rows of the chain of \<open>ContextQ\<close> that digit \<open>i\<close> covers and \<open>0\<close> on
  every other row. With \<open>r = 1\<close> it is the digit as the spec states it; with \<open>r = 2^64\<close> the
  noise and the injected term are in fast-multiplication representation.
\<close>

definition digit_formula :: "nat \<Rightarrow> bfv_context \<Rightarrow> poly \<Rightarrow> poly \<Rightarrow> poly \<Rightarrow> poly \<Rightarrow> nat \<Rightarrow> poly" where
  "digit_formula r bc noise skIn crp_i skOut i =
     map (\<lambda>l. map (\<lambda>j.
            word_of_nat
              ((r * (unat (noise ! l ! j)
                     + (if i * Alpha bc \<le> l \<and> l < i * Alpha bc + Alpha bc \<and>
                           l < length (Modulus (ContextQ bc))
                        then unat (skIn ! l ! j) else 0))
                + (unat (Modulus (ContextKeys bc) ! l)
                   - (unat (crp_i ! l ! j) * unat (skOut ! l ! j))
                       mod unat (Modulus (ContextKeys bc) ! l)))
               mod unat (Modulus (ContextKeys bc) ! l)))
          [0..<unat (ctxN (ContextKeys bc))])
       [0..<length (Modulus (ContextKeys bc))]"

subsection \<open>Small instances\<close>

text \<open>Concrete contexts and worlds on which the definitions above are run.\<close>

definition toy_Q :: ring_context where
  "toy_Q = \<lparr>ctxN = 8, Modulus = [17, 97]\<rparr>"

definition toy_bc :: bfv_context where
  "toy_bc = \<lparr>bfvN = 8, Alpha = 1, Beta = 2, ContextQ = toy_Q,
     ContextKeys = \<lparr>ctxN = 8, Modulus = [17, 97, 113]\<rparr>, KeySwitchPrimes = [113],
     GaussianSampler = (\<lambda>n. [])\<rparr>"

text \<open>A context of degree 8 with three primes in the chain of \<open>ContextQ\<close> and two
  key-switching primes, all congruent to 1 modulo 16; \<open>Alpha = 2\<close> does not divide the
  length of the chain. The sampler's tape holds four different polynomials.\<close>

definition small_Q :: ring_context where
  "small_Q = \<lparr>ctxN = 8, Modulus = [17, 97, 113]\<rparr>"

definition small_keys :: ring_context where
  "small_keys = \<lparr>ctxN = 8, Modulus = [17, 97, 113, 193, 241]\<rparr>"

definition small_noise :: "nat \<Rightarrow> poly" where
  "small_noise n =
     (if n = 0 then [[1, 2, 0, 0, 0, 0, 0, 0],
        [1, 2, 0, 0, 0, 0, 0, 0],
        [1, 2, 0, 0, 0, 0, 0, 0],
        [1, 2, 0, 0, 0, 0, 0, 0],
        [1, 2, 0, 0, 0, 0, 0, 0]]
      else if n = 1 then [[4, 0, 3, 0, 0, 0, 0, 0],
        [4, 0, 3, 0, 0, 0, 0, 0],
        [4, 0, 3, 0, 0, 0, 0, 0],
        [4, 0, 3, 0, 0, 0, 0, 0],
        [4, 0, 3, 0, 0, 0, 0, 0]]
      else if n = 2 then [[2, 0, 0, 1, 0, 0, 0, 0],
        [2, 0, 0, 1, 0, 0, 0, 0],
        [2, 0, 0, 1, 0, 0, 0, 0],
        [2, 0, 0, 1, 0, 0, 0, 0],
        [2, 0, 0, 1, 0, 0, 0, 0]]
      else [[0, 0, 0, 0, 1, 0, 0, 0],
        [0, 0, 0, 0, 1, 0, 0, 0],
        [0, 0, 0, 0, 1, 0, 0, 0],
        [0, 0, 0, 0, 1, 0, 0, 0],
        [0, 0, 0, 0, 1, 0, 0, 0]])"

definition small_bc :: bfv_context where
  "small_bc = \<lparr>bfvN = 8, Alpha = 2, Beta = 2, ContextQ = small_Q, ContextKeys = small_keys,
     KeySwitchPrimes = [193, 241], GaussianSampler = small_noise\<rparr>"

text \<open>The generator that \<open>NewRKG\<close> builds on this context.\<close>

definition small_rkg :: RKG where
  "small_rkg = \<lparr>bfvContext = small_bc, gen = 5, genInv = 13, galElRotRow = 15,
     galElRotColLeft = [1, 5, 9, 13], galElRotColRight = [1, 13, 9, 5],
     rot_col_L = [], rot_col_R = [], rot_row = None, polypool = 1\<rparr>"

text \<open>Cell 1 is the scratch polynomial, cell 2 a secret share, cells 3 and 4 a common
  random polynomial of two digits, cells 5 to 8 the shares of two parties.\<close>

definition small_world :: world where
  "small_world = \<lparr>heap = [
      [[1, 2, 3, 4, 5, 6, 7, 8],
       [2, 3, 4, 5, 6, 7, 8, 9],
       [3, 4, 5, 6, 7, 8, 9, 10],
       [4, 5, 6, 7, 8, 9, 10, 11],
       [5, 6, 7, 8, 9, 10, 11, 12]],
      [[0, 16, 0, 3, 16, 5, 12, 7],
       [94, 49, 86, 53, 41, 82, 27, 59],
       [104, 23, 10, 42, 32, 89, 81, 102],
       [26, 68, 119, 136, 20, 128, 145, 59],
       [176, 151, 13, 68, 162, 86, 138, 199]],
      [[16, 7, 7, 14, 5, 1, 9, 0],
       [87, 66, 93, 77, 83, 83, 12, 81],
       [53, 90, 5, 13, 44, 15, 47, 69],
       [63, 170, 55, 74, 111, 123, 65, 1],
       [17, 160, 134, 120, 173, 40, 157, 103]],
      [[9, 15, 9, 13, 0, 11, 13, 4],
       [11, 34, 14, 27, 3, 15, 2, 17],
       [102, 28, 48, 36, 48, 54, 10, 41],
       [26, 127, 27, 145, 93, 15, 55, 120],
       [139, 90, 76, 203, 223, 165, 196, 85]],
      [[7, 11, 0, 12, 3, 12, 15, 13],
       [19, 23, 21, 78, 40, 68, 76, 15],
       [24, 62, 112, 79, 45, 100, 0, 24],
       [160, 146, 173, 61, 168, 98, 179, 94],
       [186, 138, 77, 120, 74, 82, 27, 224]],
      [[1, 14, 13, 16, 7, 10, 9, 8],
       [14, 69, 49, 35, 94, 95, 71, 77],
       [78, 99, 105, 106, 7, 33, 95, 64],
       [109, 75, 145, 139, 66, 78, 93, 115],
       [44, 174, 81, 220, 132, 12, 33, 239]],
      [[4, 10, 11, 11, 16, 7, 3, 2],
       [74, 50, 58, 51, 23, 39, 59, 17],
       [93, 103, 18, 76, 108, 109, 3, 33],
       [185, 101, 118, 157, 18, 150, 25, 39],
       [183, 72, 200, 53, 89, 68, 48, 19]],
      [[5, 6, 16, 2, 7, 12, 8, 5],
       [42, 62, 51, 43, 63, 35, 34, 42],
       [108, 79, 64, 83, 99, 88, 66, 36],
       [181, 54, 176, 163, 46, 180, 21, 30],
       [23, 198, 0, 233, 139, 71, 228, 228]]], drawn = 0\<rparr>"

text \<open>The automorphism \<open>X \<mapsto> X^g\<close> on the eight slots of the NTT domain of degree 8,
  which are kept in bit-reversed order: slot \<open>i\<close> holds the value at the power
  \<open>2 * bitrev3 i + 1\<close> of the root of unity, and the permuted polynomial reads, for slot
  \<open>i\<close>, the slot that holds the power \<open>g * (2 * bitrev3 i + 1) mod 16\<close>.\<close>

definition bitrev3 :: "nat \<Rightarrow> nat" where
  "bitrev3 i = [0, 4, 2, 6, 1, 5, 3, 7] ! i"

definition small_slot :: "nat \<Rightarrow> nat \<Rightarrow> nat" where
  "small_slot g i = bitrev3 (((g * (2 * bitrev3 i + 1)) mod 16 - 1) div 2)"

definition small_perm :: "u64 \<Rightarrow> poly \<Rightarrow> poly" where
  "small_perm g p = map (\<lambda>r. map (\<lambda>i. r ! small_slot (unat g) i) [0, 1, 2, 3, 4, 5, 6, 7]) p"

definition small_samples :: "ptr list list" where
  "small_samples = [[5, 6], [7, 8]]"

definition small_crp :: "ptr list" where
  "small_crp = [3, 4]"

text \<open>A common random polynomial with one entry too many.\<close>

definition long_crp :: "ptr list" where
  "long_crp = [3, 4, 2]"

text \<open>A context with two primes of 61 bits, and sixteen parties whose shares are
  cells 1 to 16; cell 17 is the common random polynomial, cell 18 the scratch
  polynomial.\<close>

definition wide_keys :: ring_context where
  "wide_keys = \<lparr>ctxN = 2, Modulus = [0x1fffffffffe00001, 0x1fffffffffc80001]\<rparr>"

definition wide_bc :: bfv_context where
  "wide_bc = \<lparr>bfvN = 2, Alpha = 1, Beta = 1,
     ContextQ = \<lparr>ctxN = 2, Modulus = [0x1fffffffffe00001]\<rparr>, ContextKeys = wide_keys,
     KeySwitchPrimes = [0x1fffffffffc80001], GaussianSampler = (\<lambda>n. [[0, 0], [0, 0]])\<rparr>"

definition wide_rkg :: RKG where
  "wide_rkg = \<lparr>bfvContext = wide_bc, gen = 5, genInv = 1, galElRotRow = 3,
     galElRotColLeft = [1], galElRotColRight = [1],
     rot_col_L = [], rot_col_R = [], rot_row = None, polypool = 18\<rparr>"

definition wide_share :: poly where
  "wide_share = [[0x1fffffffffe00000, 1], [0x1fffffffffc80000, 2]]"

definition wide_world :: world where
  "wide_world = \<lparr>heap = replicate 16 wide_share @ [[[3, 4], [5, 6]], [[0, 0], [0, 0]]], drawn = 0\<rparr>"

definition wide_samples :: "ptr list list" where
  "wide_samples = [[1], [2], [3], [4], [5], [6], [7], [8], [9], [10], [11], [12], [13], [14],
     [15], [16]]"

definition wide_crp :: "ptr list" where
  "wide_crp = [17]"


section \<open>Properties\<close>

subsection \<open>The Galois element tables\<close>

lemma sq_mod_lift:
  fixes x :: nat
  assumes "x mod 2 ^ Suc k = 1"
  shows "x ^ 2 mod 2 ^ Suc (Suc k) = 1"
proof -
  obtain t where x: "x = t * 2 ^ Suc k + 1"
    using assms by (metis div_mult_mod_eq)
  have "x ^ 2 = (t * t * 2 ^ k + t) * 2 ^ Suc (Suc k) + 1"
    unfolding x by (simp add: power2_eq_square algebra_simps)
  then show ?thesis
    by (metis mod_mult_self3 One_nat_def Suc_1 lessI mod_less power_gt1)
qed

lemma odd_pow2_mod:
  fixes a :: nat
  assumes "odd a"
  shows "a ^ (2 ^ k) mod 2 ^ Suc k = 1"
proof (induction k)
  case 0
  then show ?case using assms by (simp add: odd_iff_mod_2_eq_one)
next
  case (Suc k)
  have "a ^ (2 ^ Suc k) = (a ^ (2 ^ k)) ^ 2"
    by (simp add: power_mult [symmetric] mult.commute)
  then show ?case using sq_mod_lift [OF Suc] by simp
qed

lemma unat_two_power: 
  assumes "m < 64" shows "unat ((2::u64) ^ m) = 2 ^ m"
proof -
  have "(2::u64) ^ m = word_of_nat (2 ^ m)" by simp
  then have "unat ((2::u64) ^ m) = 2 ^ m mod 2 ^ 64"
    by (simp only: unat_of_nat) simp
  moreover have "(2::nat) ^ m < 2 ^ 64" using assms by (intro power_strict_increasing) simp_all
  ultimately show ?thesis by simp
qed

lemma unat_shl1:
  assumes "m \<le> 62" shows "unat (push_bit 1 ((2::u64) ^ m)) = 2 ^ Suc m"
proof -
  have "push_bit 1 ((2::u64) ^ m) = 2 ^ Suc m" by (simp add: push_bit_eq_mult)
  then show ?thesis using unat_two_power [of "Suc m"] assms by (simp add: mult.commute)
qed

lemma unat_shr1:
  assumes "m < 64" shows "unat (drop_bit 1 ((2::u64) ^ m)) = 2 ^ m div 2"
  using unat_two_power [OF assms] by (simp add: drop_bit_eq_div unat_div)

lemma shl1_minus_mask:
  "push_bit 1 ((2::u64) ^ m) - 1 = mask (Suc m)"
  by (simp add: mask_eq_exp_minus_1 push_bit_eq_mult)

lemma unat_shl1_minus:
  assumes "m \<le> 62" shows "unat (push_bit 1 ((2::u64) ^ m) - 1) = 2 ^ Suc m - 1"
proof -
  have "(1::u64) \<le> push_bit 1 (2 ^ m)"
    using unat_shl1 [OF assms] by (simp add: word_le_nat_alt del: push_bit_Suc)
  then show ?thesis using unat_shl1 [OF assms] by (simp add: unat_sub del: push_bit_Suc)
qed

lemma unat_mul_mask:
  fixes x g :: u64
  assumes "m \<le> 62"
  shows "unat ((x * g) AND mask (Suc m)) = (unat x * unat g) mod 2 ^ Suc m"
proof -
  have "unat ((x * g) AND mask (Suc m)) = unat (take_bit (Suc m) (x * g))"
    by (simp add: take_bit_eq_mask)
  also have "\<dots> = take_bit (Suc m) (unat (x * g))"
    by (simp add: unsigned_take_bit_eq)
  also have "\<dots> = ((unat x * unat g) mod 2 ^ 64) mod 2 ^ Suc m"
    by (simp add: take_bit_eq_mod unat_word_ariths)
  also have "\<dots> = (unat x * unat g) mod 2 ^ Suc m"
  proof -
    have "(2::nat) ^ Suc m dvd 2 ^ 64"
      using assms by (intro le_imp_power_dvd) simp
    then show ?thesis by (rule mod_mod_cancel)
  qed
  finally show ?thesis .
qed

text \<open>The loop keeps both tables equal to the powers, up to the index it has reached.\<close>

lemma genTables_inv:
  assumes "\<forall>x y. unat ((x * y) AND msk) = (unat x * unat y) mod M"
    and "0 < i" "i \<le> half" "length L = half" "length R = half"
    and "\<forall>k<i. unat (L ! k) = unat g ^ k mod M"
    and "\<forall>k<i. unat (R ! k) = unat gi ^ k mod M"
    and "genTables g gi msk half i (L, R) = (L', R')"
  shows "length L' = half \<and> length R' = half \<and>
     (\<forall>k<half. unat (L' ! k) = unat g ^ k mod M) \<and>
     (\<forall>k<half. unat (R' ! k) = unat gi ^ k mod M)"
  using assms
proof (induction g gi msk half i "(L, R)" arbitrary: L R rule: genTables.induct)
  case (1 g gi msk half i L R)
  show ?case
  proof (cases "i < half")
    case True
    let ?L = "L[i := (L ! (i - 1) * g) AND msk]"
    let ?R = "R[i := (R ! (i - 1) * gi) AND msk]"
    have step: "genTables g gi msk half (Suc i) (?L, ?R) = (L', R')"
      using "1.prems"(8) True by (subst (asm) genTables.simps) simp
    have pw: "(a ^ (i - Suc 0) mod M * a) mod M = a ^ i mod M" for a :: nat
      using "1.prems"(2) by (cases i) (simp_all add: mod_mult_right_eq mod_mult_left_eq mult.commute)
    have Li: "unat (?L ! i) = unat g ^ i mod M"
      using True "1.prems"(1,2,4,6) by (simp add: pw)
    have Ri: "unat (?R ! i) = unat gi ^ i mod M"
      using True "1.prems"(1,2,5,7) by (simp add: pw)
    have L': "\<forall>k<Suc i. unat (?L ! k) = unat g ^ k mod M"
      using Li "1.prems"(6) by (auto simp: less_Suc_eq nth_list_update)
    have R': "\<forall>k<Suc i. unat (?R ! k) = unat gi ^ k mod M"
      using Ri "1.prems"(7) by (auto simp: less_Suc_eq nth_list_update)
    show ?thesis
      using "1.hyps" [OF True "1.prems"(1) _ _ _ _ L' R' step] True "1.prems"(4,5)
      by simp
  next
    case False
    then have "i = half" using "1.prems" by simp
    moreover have "L' = L" "R' = R"
      using "1.prems"(8) False by (subst (asm) genTables.simps; simp)+
    ultimately show ?thesis using "1.prems" by simp
  qed
qed


lemma five_inverse:
  "(5 * (5 ^ (2 ^ Suc m - 1) mod 2 ^ Suc m)) mod 2 ^ Suc m = (1::nat)"
proof -
  define M :: nat where "M = 2 ^ Suc m"
  define E :: nat where "E = 2 ^ Suc m"
  have M1: "1 < M" unfolding M_def by (rule one_less_power) simp_all
  have E0: "0 < E" unfolding E_def by simp
  have "(5::nat) ^ E mod (2 ^ Suc (Suc m)) = 1"
    unfolding E_def by (rule odd_pow2_mod) simp
  moreover have "M dvd 2 ^ Suc (Suc m)"
    unfolding M_def by (intro le_imp_power_dvd) simp
  ultimately have e: "(5::nat) ^ E mod M = 1"
    using M1 by (metis mod_mod_cancel mod_less)
  have "(5::nat) * 5 ^ (E - 1) = 5 ^ E"
    using E0 by (cases E) simp_all
  then have "(5 * (5 ^ (E - 1) mod M)) mod M = (1::nat)"
    using e by (metis mod_mult_right_eq)
  then show ?thesis unfolding M_def E_def .
qed

lemma inverse_powers:
  fixes a b M :: nat
  assumes "(a * b) mod M = 1" "1 < M"
  shows "((a ^ i mod M) * (b ^ i mod M)) mod M = 1"
proof -
  have "((a ^ i mod M) * (b ^ i mod M)) mod M = (a * b) ^ i mod M"
    by (simp add: mod_mult_eq power_mult_distrib)
  also have "\<dots> = ((a * b) mod M) ^ i mod M"
    by (simp add: power_mod)
  finally show ?thesis using assms by simp
qed

lemma unat_ModExp:
  assumes "m \<le> 62"
  shows "unat (ModExp 5 (push_bit 1 (2 ^ m) - 1) (push_bit 1 (2 ^ m)))
           = 5 ^ (2 ^ Suc m - 1) mod 2 ^ Suc m"
proof -
  define r :: nat where "r = 5 ^ (2 ^ Suc m - 1) mod 2 ^ Suc m"
  have "r < 2 ^ Suc m" unfolding r_def by simp
  also have "(2::nat) ^ Suc m < 2 ^ 64"
    using assms by (intro power_strict_increasing) simp_all
  finally have r: "r < 2 ^ LENGTH(64)" by simp
  have "unat (5::u64) = 5" by simp
  then have "ModExp 5 (push_bit 1 (2 ^ m) - 1) (push_bit 1 (2 ^ m)) = word_of_nat r"
    unfolding ModExp_def r_def
    by (simp only: unat_shl1 [OF assms] unat_shl1_minus [OF assms])
  then have "unat (ModExp 5 (push_bit 1 (2 ^ m) - 1) (push_bit 1 (2 ^ m))) = r"
    using r by (simp only: unat_of_nat mod_less)
  then show ?thesis unfolding r_def .
qed


text \<open>
  Claim C4. For a ring degree \<open>N = 2^m\<close> (\<open>1 \<le> m \<le> 62\<close>, so that \<open>2N\<close> fits a machine
  word) construction succeeds with generator \<open>5\<close>; \<open>genInv = 5^(2N-1) mod 2N\<close> is the
  inverse of the generator modulo \<open>2N\<close>; both tables have \<open>N/2\<close> entries, entry \<open>i\<close> of
  the left one is \<open>5^i mod 2N\<close>, of the right one \<open>genInv^i mod 2N\<close>, and their product
  is \<open>1\<close> modulo \<open>2N\<close>. The masking by \<open>2N - 1\<close> is exact reduction modulo \<open>2N\<close> even
  where the 64-bit product wraps around.
\<close>

theorem galois_tables:
  assumes N: "bfvN bc = 2 ^ m" and m: "1 \<le> m" "m \<le> 62"
  shows "\<exists>rkg w'. NewRKG bc w = Inr (rkg, w') \<and>
     gen rkg = 5 \<and>
     unat (genInv rkg) = 5 ^ (2 * unat (bfvN bc) - 1) mod (2 * unat (bfvN bc)) \<and>
     (unat (gen rkg) * unat (genInv rkg)) mod (2 * unat (bfvN bc)) = 1 \<and>
     unat (galElRotRow rkg) = 2 * unat (bfvN bc) - 1 \<and>
     length (galElRotColLeft rkg) = unat (bfvN bc) div 2 \<and>
     length (galElRotColRight rkg) = unat (bfvN bc) div 2 \<and>
     (\<forall>i < unat (bfvN bc) div 2.
        unat (galElRotColLeft rkg ! i) = unat (gen rkg) ^ i mod (2 * unat (bfvN bc)) \<and>
        unat (galElRotColRight rkg ! i) = unat (genInv rkg) ^ i mod (2 * unat (bfvN bc)) \<and>
        (unat (galElRotColLeft rkg ! i) * unat (galElRotColRight rkg ! i))
           mod (2 * unat (bfvN bc)) = 1)"
proof -
  define M :: nat where "M = 2 ^ Suc m"
  define half :: nat where "half = 2 ^ m div 2"
  define msk :: u64 where "msk = push_bit 1 (bfvN bc) - 1"
  define gi :: u64 where "gi = ModExp 5 msk (push_bit 1 (bfvN bc))"
  have m64: "m < 64" using m by simp
  have uN: "unat (bfvN bc) = 2 ^ m" using unat_two_power [OF m64] N by simp
  have twoN: "2 * unat (bfvN bc) = M" unfolding M_def uN by simp
  have M1: "1 < M" unfolding M_def by (rule one_less_power) simp_all
  have halfpos: "0 < half"
    unfolding half_def using m by (cases m) simp_all
  have uhalf: "unat (drop_bit 1 (bfvN bc)) = half"
    unfolding half_def N by (rule unat_shr1 [OF m64])
  have ugi: "unat gi = 5 ^ (M - 1) mod M"
    unfolding gi_def msk_def N M_def by (rule unat_ModExp [OF m(2)])
  have inv: "(5 * unat gi) mod M = 1"
    unfolding ugi M_def by (rule five_inverse)
  have mm: "\<forall>x y. unat ((x * y) AND msk) = (unat x * unat y) mod M"
    unfolding msk_def N M_def shl1_minus_mask using unat_mul_mask [OF m(2)] by blast
  obtain L R where LR: "genTables 5 gi msk half 1
       ((replicate half 0)[0 := 1], (replicate half 0)[0 := 1]) = (L, R)"
    by (cases "genTables 5 gi msk half 1
       ((replicate half 0)[0 := 1], (replicate half 0)[0 := 1])") blast
  have init: "\<forall>k<1. unat (((replicate half (0::u64))[0 := 1]) ! k) = unat a ^ k mod M" for a :: u64
    using halfpos M1 by simp
  have tab: "length L = half \<and> length R = half \<and>
     (\<forall>k<half. unat (L ! k) = unat (5::u64) ^ k mod M) \<and>
     (\<forall>k<half. unat (R ! k) = unat gi ^ k mod M)"
    by (rule genTables_inv [OF mm _ _ _ _ init init LR]) (use halfpos in simp_all)
  have u5: "unat (5::u64) = 5" by simp
  have prod: "(unat (L ! k) * unat (R ! k)) mod M = 1" if "k < half" for k
    using tab that inverse_powers [OF inv M1, of k] by (simp add: u5)
  define rkg where "rkg = \<lparr>bfvContext = bc, gen = 5, genInv = gi,
                     galElRotRow = msk,
                     galElRotColLeft = L, galElRotColRight = R,
                     rot_col_L = [], rot_col_R = [], rot_row = None,
                     polypool = Suc (length (heap w))\<rparr>"
  have run: "NewRKG bc w = Inr (rkg, snd (alloc (NewPoly (ContextKeys bc)) w))"
    unfolding NewRKG_def rkg_def Let_def alloc_def uhalf gi_def [symmetric] msk_def [symmetric]
    using halfpos LR by simp
  have row: "unat (galElRotRow rkg) = M - 1"
    unfolding rkg_def M_def using unat_shl1_minus [OF m(2)] by (simp add: msk_def N)
  have hN: "unat (bfvN bc) div 2 = half" unfolding uN half_def ..
  show ?thesis
    apply (rule exI [of _ rkg])
    apply (rule exI [of _ "snd (alloc (NewPoly (ContextKeys bc)) w)"])
    unfolding twoN hN
    using run tab prod ugi inv row
    by (simp add: rkg_def u5)
qed


theorem galois_tables_witness:
  "bfvN toy_bc = 2 ^ 3 \<and> (1::nat) \<le> 3 \<and> (3::nat) \<le> 62 \<and>
   (\<exists>rkg w'. NewRKG toy_bc \<lparr>heap = [], drawn = 0\<rparr> = Inr (rkg, w') \<and>
     gen rkg = 5 \<and> genInv rkg = 13 \<and>
     galElRotColLeft rkg = [1, 5, 9, 13] \<and> galElRotColRight rkg = [1, 13, 9, 5] \<and>
     (\<forall>i < unat (bfvN toy_bc) div 2.
        (unat (galElRotColLeft rkg ! i) * unat (galElRotColRight rkg ! i))
           mod (2 * unat (bfvN toy_bc)) = 1))"
proof -
  have h: "bfvN toy_bc = 2 ^ 3" by (simp add: toy_bc_def)
  obtain rkg w' where r: "NewRKG toy_bc \<lparr>heap = [], drawn = 0\<rparr> = Inr (rkg, w')"
    and p: "\<forall>i < unat (bfvN toy_bc) div 2.
        (unat (galElRotColLeft rkg ! i) * unat (galElRotColRight rkg ! i))
           mod (2 * unat (bfvN toy_bc)) = 1"
    using galois_tables [OF h, of "\<lparr>heap = [], drawn = 0\<rparr>"] by auto
  have e: "NewRKG toy_bc \<lparr>heap = [], drawn = 0\<rparr> =
     Inr (\<lparr>bfvContext = toy_bc, gen = 5, genInv = 13, galElRotRow = 15,
           galElRotColLeft = [1, 5, 9, 13], galElRotColRight = [1, 13, 9, 5],
           rot_col_L = [], rot_col_R = [], rot_row = None, polypool = 1\<rparr>,
          \<lparr>heap = [NewPoly (ContextKeys toy_bc)], drawn = 0\<rparr>)"
    by (simp add: NewRKG_def toy_bc_def alloc_def ModExp_def genTables.simps drop_bit_eq_div
        push_bit_eq_mult) (simp add: eval_nat_numeral)
  show ?thesis using h r p e by auto
qed


subsection \<open>Rotation amounts are taken modulo \<open>N/2\<close>\<close>

lemma unat_take_bit:
  "unat (take_bit n (w :: u64)) = unat w mod 2 ^ n"
proof -
  have "unat (take_bit n w) = take_bit n (unat w)"
    by (simp only: unsigned_take_bit_eq)
  then show ?thesis by (simp only: take_bit_eq_mod)
qed

lemma half_value:
  assumes "Suc n < 64"
  shows "drop_bit 1 ((2::u64) ^ Suc n) = 2 ^ n"
  using assms by (simp add: drop_bit_exp_eq del: power_Suc drop_bit_Suc)

lemma half_mask:
  assumes "Suc n < 64"
  shows "drop_bit 1 ((2::u64) ^ Suc n) - 1 = mask n"
  unfolding half_value [OF assms] by (simp add: mask_eq_exp_minus_1)

lemma mask_shift_invariant:
  assumes "m < 64"
  shows "(k + drop_bit 1 ((2::u64) ^ m)) AND (drop_bit 1 (2 ^ m) - 1)
           = k AND (drop_bit 1 (2 ^ m) - 1)"
proof (cases m)
  case 0
  then show ?thesis by simp
next
  case (Suc n)
  have n: "n < 64" using assms Suc by simp
  have d: "(2::nat) ^ n dvd 2 ^ 64"
    using n by (intro le_imp_power_dvd) simp
  have "unat (take_bit n (k + 2 ^ n)) = unat (k + 2 ^ n) mod 2 ^ n"
    by (rule unat_take_bit)
  also have "\<dots> = ((unat k + 2 ^ n) mod 2 ^ 64) mod 2 ^ n"
    using unat_two_power [OF n] by (simp add: unat_word_ariths)
  also have "\<dots> = (unat k + 2 ^ n) mod 2 ^ n"
    using d by (rule mod_mod_cancel)
  also have "\<dots> = unat (take_bit n k)"
    by (simp add: unat_take_bit)
  finally have "take_bit n (k + 2 ^ n) = take_bit n k"
    by (rule unsigned_word_eqI)
  then have "(k + 2 ^ n) AND mask n = k AND mask n"
    by (simp only: take_bit_eq_mask)
  then show ?thesis
    using assms unfolding Suc by (simp only: half_value mask_eq_exp_minus_1)
qed

lemma mask_is_mod:
  assumes "m < 64"
  shows "unat (k AND (drop_bit 1 ((2::u64) ^ m) - 1)) = unat k mod (unat ((2::u64) ^ m) div 2)"
proof (cases m)
  case 0
  then show ?thesis by simp
next
  case (Suc n)
  have "unat ((2::u64) ^ m) = 2 ^ m" using unat_two_power [OF assms] .
  then have d: "unat ((2::u64) ^ Suc n) div 2 = 2 ^ n" using Suc by simp
  have "unat (k AND mask n) = unat (take_bit n k)"
    by (simp only: take_bit_eq_mask)
  also have "\<dots> = take_bit n (unat k)"
    by (simp only: unsigned_take_bit_eq)
  also have "\<dots> = unat k mod 2 ^ n"
    by (simp only: take_bit_eq_mod)
  finally show ?thesis
    using assms unfolding Suc by (simp only: half_value mask_eq_exp_minus_1 d)
qed


subsection \<open>The parameter \<open>sk_in\<close>\<close>

text \<open>
  Claim C9. The result of \<open>genswitchkey\<close> does not depend on its first parameter: for any two
  pointers passed as \<open>sk_in\<close>, with the generator (and so its scratch polynomial), \<open>sk_out\<close>,
  the common random polynomial and the world (store and sampler) the same, the results are
  equal. The injection reads \<open>rkg.polypool\<close>.
\<close>

theorem genswitchkey_ignores_sk_in:
  "genswitchkey rkg p sk_out crp w = genswitchkey rkg q sk_out crp w"
  by (simp add: genswitchkey_def)


subsection \<open>Finalization\<close>

lemma drain_result:
  "drain set_key rotkey m = (rk, m') \<Longrightarrow> m' = []"
  by (induction set_key rotkey m rule: drain.induct) simp_all

lemma drain_left:
  "fst (drain SetRotColLeft rotkey m) =
     rotkey\<lparr>evakey_rot_col_L := evakey_rot_col_L rotkey ++ map_of m\<rparr>"
proof (induction SetRotColLeft rotkey m rule: drain.induct)
  case (1 rotkey)
  then show ?case by simp
next
  case (2 rotkey k v m)
  have "(evakey_rot_col_L rotkey)(k \<mapsto> v) ++ map_of (AList.delete k m)
      = (evakey_rot_col_L rotkey ++ map_of m)(k \<mapsto> v)"
    by (rule ext) (simp add: map_add_def AList.delete_conv split: option.splits)
  then show ?case using 2 by (simp add: SetRotColLeft_def)
qed


lemma drain_right:
  "fst (drain SetRotColRight rotkey m) =
     rotkey\<lparr>evakey_rot_col_R := evakey_rot_col_R rotkey ++ map_of m\<rparr>"
proof (induction SetRotColRight rotkey m rule: drain.induct)
  case (1 rotkey)
  then show ?case by simp
next
  case (2 rotkey k v m)
  have "(evakey_rot_col_R rotkey)(k \<mapsto> v) ++ map_of (AList.delete k m)
      = (evakey_rot_col_R rotkey ++ map_of m)(k \<mapsto> v)"
    by (rule ext) (simp add: map_add_def AList.delete_conv split: option.splits)
  then show ?case using 2 by (simp add: SetRotColRight_def)
qed

lemma drain_empties: "snd (drain set_key rotkey m) = []"
  by (cases "drain set_key rotkey m") (simp add: drain_result)

lemma Finalize_eq:
  "Finalize rkg =
     (\<lparr>evakey_rot_col_L = map_of (rot_col_L rkg), evakey_rot_col_R = map_of (rot_col_R rkg),
       evakey_rot_row = rot_row rkg\<rparr>,
      rkg\<lparr>rot_col_L := [], rot_col_R := [], rot_row := None\<rparr>)"
proof -
  obtain r1 m1 where d1: "drain SetRotColLeft NewRotationKeysEmpty (rot_col_L rkg) = (r1, m1)"
    by (cases "drain SetRotColLeft NewRotationKeysEmpty (rot_col_L rkg)") blast
  obtain r2 m2 where d2: "drain SetRotColRight r1 (rot_col_R rkg) = (r2, m2)"
    by (cases "drain SetRotColRight r1 (rot_col_R rkg)") blast
  have m: "m1 = []" "m2 = []" using d1 d2 by (auto dest: drain_result)
  have r1: "r1 = NewRotationKeysEmpty\<lparr>evakey_rot_col_L := map_of (rot_col_L rkg)\<rparr>"
    using drain_left [of NewRotationKeysEmpty "rot_col_L rkg"] d1
    by (simp add: NewRotationKeysEmpty_def)
  have r2: "r2 = r1\<lparr>evakey_rot_col_R := map_of (rot_col_R rkg)\<rparr>"
    using drain_right [of r1 "rot_col_R rkg"] d2 r1
    by (simp add: NewRotationKeysEmpty_def)
  show ?thesis
    unfolding Finalize_def Let_def d1 d2 prod.case
    by (cases "rot_row rkg") (simp_all add: m r1 r2 NewRotationKeysEmpty_def SetRotRow_def)
qed

text \<open>
  Claim C6. \<open>Finalize\<close> returns the key set whose column-left and column-right entries are
  exactly the entries of the two accumulator maps and whose row key is the accumulated
  row key, absent if there is none; it leaves both maps empty and the row key nil, so that
  a second \<open>Finalize\<close> right after it returns the empty key set.
\<close>

theorem finalize_drains:
  "evakey_rot_col_L (fst (Finalize rkg)) = map_of (rot_col_L rkg) \<and>
   evakey_rot_col_R (fst (Finalize rkg)) = map_of (rot_col_R rkg) \<and>
   evakey_rot_row (fst (Finalize rkg)) = rot_row rkg \<and>
   rot_col_L (snd (Finalize rkg)) = [] \<and>
   rot_col_R (snd (Finalize rkg)) = [] \<and>
   rot_row (snd (Finalize rkg)) = None \<and>
   fst (Finalize (snd (Finalize rkg))) = NewRotationKeysEmpty"
  by (simp add: Finalize_eq NewRotationKeysEmpty_def)


subsection \<open>The store and the backend routines\<close>

lemma bindE_Inl [simp]: "bindE (Inl e) f = Inl e"
  by (simp add: bindE_def)

lemma bindE_Inr [simp]: "bindE (Inr x) f = f x"
  by (simp add: bindE_def)

lemma valid_store [simp]: "valid (store p x w) q = valid w q"
  by (simp add: valid_def store_def)

lemma drawn_store [simp]: "drawn (store p x w) = drawn w"
  by (simp add: store_def)

lemma length_heap_store [simp]: "length (heap (store p x w)) = length (heap w)"
  by (simp add: store_def)

lemma cell_store_same [simp]: "valid w p \<Longrightarrow> cell (store p x w) p = x"
  by (cases p) (simp_all add: valid_def store_def cell_def)

lemma cell_store_other [simp]: 
  "valid w p \<Longrightarrow> valid w q \<Longrightarrow> q \<noteq> p \<Longrightarrow> cell (store p x w) q = cell w q"
  by (cases p; cases q) (simp_all add: valid_def store_def cell_def nth_list_update)

lemma store_store [simp]: "store p x (store p y w) = store p x w"
  by (simp add: store_def)

lemma valid_alloc: "valid (snd (alloc x w)) q \<longleftrightarrow> valid w q \<or> q = Suc (length (heap w))"
  by (auto simp: valid_def alloc_def)

lemma store_fresh:
  "store (Suc (length (heap w))) y (w\<lparr>heap := heap w @ [x]\<rparr>) = w\<lparr>heap := heap w @ [y]\<rparr>"
  by (simp add: store_def)

lemma load_Inr [simp]: "valid w p \<Longrightarrow> shaped c (cell w p) \<Longrightarrow> load c w p = Inr (cell w p)"
  by (simp add: load_def)

lemma load_nil [simp]: "\<not> valid w p \<Longrightarrow> load c w p = Inl NilDeref"
  by (simp add: load_def)

lemma op1_run:
  "valid w p1 \<Longrightarrow> shaped c (cell w p1) \<Longrightarrow> valid w p2 \<Longrightarrow> shaped c (cell w p2) \<Longrightarrow>
     op1 f c p1 p2 w = Inr (store p2 (rows1 f c (cell w p1)) w)"
  by (simp add: op1_def)

lemma op2_run:
  "valid w p1 \<Longrightarrow> shaped c (cell w p1) \<Longrightarrow> valid w p2 \<Longrightarrow> shaped c (cell w p2) \<Longrightarrow>
   valid w p3 \<Longrightarrow> shaped c (cell w p3) \<Longrightarrow>
     op2 f c p1 p2 p3 w = Inr (store p3 (rows2 f c (cell w p1) (cell w p2)) w)"
  by (simp add: op2_def)

lemma MulSub_run:
  "valid w p1 \<Longrightarrow> shaped c (cell w p1) \<Longrightarrow> valid w p2 \<Longrightarrow> shaped c (cell w p2) \<Longrightarrow>
   valid w p3 \<Longrightarrow> shaped c (cell w p3) \<Longrightarrow>
     MulCoeffsMontgomeryAndSub c p1 p2 p3 w
       = Inr (store p3 (rows3 MulSubC c (cell w p1) (cell w p2) (cell w p3)) w)"
  by (simp add: MulCoeffsMontgomeryAndSub_def)

lemma shaped_nth: "shaped c a \<Longrightarrow> l < length (Modulus c) \<Longrightarrow> length (a ! l) = unat (ctxN c)"
  by (simp add: shaped_def)

lemma shaped_length: "shaped c a \<Longrightarrow> length a = length (Modulus c)"
  by (simp add: shaped_def)

lemma shapedI:
  "length a = length (Modulus c) \<Longrightarrow> (\<And>l. l < length (Modulus c) \<Longrightarrow> length (a ! l) = unat (ctxN c))
    \<Longrightarrow> shaped c a"
  by (auto simp: shaped_def in_set_conv_nth)

lemma rows1_nth:
  "shaped c a \<Longrightarrow> l < length (Modulus c) \<Longrightarrow>
     rows1 f c a ! l = map (\<lambda>x. f x (Modulus c ! l)) (a ! l)"
  by (simp add: rows1_def shaped_def)

lemma rows2_nth:
  "shaped c a \<Longrightarrow> shaped c b \<Longrightarrow> l < length (Modulus c) \<Longrightarrow>
     rows2 f c a b ! l = map2 (\<lambda>x y. f x y (Modulus c ! l)) (a ! l) (b ! l)"
  by (simp add: rows2_def shaped_def)

lemma rows3_nth:
  "shaped c a \<Longrightarrow> shaped c b \<Longrightarrow> shaped c x \<Longrightarrow> l < length (Modulus c) \<Longrightarrow>
     rows3 f c a b x ! l = map2 (\<lambda>u (v, y). f u v y (Modulus c ! l)) (a ! l) (zip (b ! l) (x ! l))"
  by (simp add: rows3_def shaped_def)

lemma rows1_coeff:
  "shaped c a \<Longrightarrow> l < length (Modulus c) \<Longrightarrow> j < unat (ctxN c) \<Longrightarrow>
     rows1 f c a ! l ! j = f (a ! l ! j) (Modulus c ! l)"
  by (simp add: rows1_nth shaped_nth)

lemma rows2_coeff:
  "shaped c a \<Longrightarrow> shaped c b \<Longrightarrow> l < length (Modulus c) \<Longrightarrow> j < unat (ctxN c) \<Longrightarrow>
     rows2 f c a b ! l ! j = f (a ! l ! j) (b ! l ! j) (Modulus c ! l)"
  by (simp add: rows2_nth shaped_nth)

lemma rows3_coeff:
  "shaped c a \<Longrightarrow> shaped c b \<Longrightarrow> shaped c x \<Longrightarrow> l < length (Modulus c) \<Longrightarrow> j < unat (ctxN c) \<Longrightarrow>
     rows3 f c a b x ! l ! j = f (a ! l ! j) (b ! l ! j) (x ! l ! j) (Modulus c ! l)"
  by (simp add: rows3_nth shaped_nth)

lemma shaped_rows1 [simp]: "shaped c a \<Longrightarrow> shaped c (rows1 f c a)"
  by (rule shapedI) (simp_all add: rows1_nth shaped_nth, simp add: rows1_def shaped_def)

lemma shaped_rows2 [simp]: "shaped c a \<Longrightarrow> shaped c b \<Longrightarrow> shaped c (rows2 f c a b)"
  by (rule shapedI) (simp_all add: rows2_nth shaped_nth, simp add: rows2_def shaped_def)

lemma shaped_rows3 [simp]:
  "shaped c a \<Longrightarrow> shaped c b \<Longrightarrow> shaped c x \<Longrightarrow> shaped c (rows3 f c a b x)"
  by (rule shapedI) (simp_all add: rows3_nth shaped_nth, simp add: rows3_def shaped_def)

text \<open>Two polynomials of the context's shape are equal when their coefficients are.\<close>

lemma shaped_eqI:
  assumes "shaped c a" "shaped c b"
    and "\<And>l j. l < length (Modulus c) \<Longrightarrow> j < unat (ctxN c) \<Longrightarrow> a ! l ! j = b ! l ! j"
  shows "a = b"
proof (rule nth_equalityI)
  show "length a = length b" using assms(1,2) by (simp add: shaped_def)
next
  fix l assume "l < length a"
  then have l: "l < length (Modulus c)" using assms(1) by (simp add: shaped_def)
  show "a ! l = b ! l"
    by (rule nth_equalityI) (use l assms in \<open>simp_all add: shaped_nth\<close>)
qed


lemma store_cell_id: "store p (cell w p) w = w"
  by (simp add: store_def cell_def)

lemma injectRow_run:
  assumes "valid w ev" "shaped c (cell w ev)" "valid w pool" "shaped c (cell w pool)"
    and "index < length (Modulus c)"
  shows "injectRow c ev pool index w =
     Inr (store ev ((cell w ev)[index := map2 (\<lambda>x y. CRed (x + y) (Modulus c ! index))
                       (cell w ev ! index) (cell w pool ! index)]) w)"
proof (cases "unat (ctxN c) = 0")
  case True
  have z: "cell w ev ! index = []"
    using shaped_nth [OF assms(2,5)] True by simp
  have "map2 (\<lambda>x y. CRed (x + y) (Modulus c ! index)) (cell w ev ! index) (cell w pool ! index)
      = cell w ev ! index"
    unfolding z by simp
  then have "(cell w ev)[index := map2 (\<lambda>x y. CRed (x + y) (Modulus c ! index))
                       (cell w ev ! index) (cell w pool ! index)] = cell w ev"
    by (simp only: list_update_id)
  then show ?thesis using True by (simp add: injectRow_def store_cell_id)
next
  case False
  then show ?thesis using assms by (simp add: injectRow_def)
qed

lemma shaped_update:
  assumes "shaped c e" "length r = unat (ctxN c)"
  shows "shaped c (e[index := r])"
  using assms by (auto simp: shaped_def dest!: set_update_subset_insert [THEN subsetD])

lemma shaped_inject_row:
  assumes "shaped c e" "shaped c p" "index < length (Modulus c)"
  shows "shaped c (e[index := map2 f (e ! index) (p ! index)])"
  by (rule shaped_update) (use assms in \<open>simp_all add: shaped_nth\<close>)

lemma injectLoop_run:
  assumes "valid w ev" "shaped (ContextKeys (bfvContext rkg)) (cell w ev)"
    and "valid w (polypool rkg)" "shaped (ContextKeys (bfvContext rkg)) (cell w (polypool rkg))"
    and "ev \<noteq> polypool rkg"
    and "i * Alpha (bfvContext rkg) + Alpha (bfvContext rkg)
           \<le> length (Modulus (ContextKeys (bfvContext rkg)))"
  shows "injectLoop rkg ev i j w =
     Inr (store ev (injected (bfvContext rkg) (cell w (polypool rkg)) i j (cell w ev)) w)"
  using assms
proof (induction rkg ev i j w rule: injectLoop.induct)
  case (1 rkg ev i j w)
  let ?bc = "bfvContext rkg"
  let ?c = "ContextKeys ?bc"
  show ?case
  proof (cases "j < Alpha ?bc")
    case False
    then show ?thesis
      by (subst injectLoop.simps, subst injected.simps) (simp add: store_cell_id)
  next
    case True
    let ?idx = "i * Alpha ?bc + j"
    let ?e1 = "(cell w ev)[?idx := map2 (\<lambda>x y. CRed (x + y) (Modulus ?c ! ?idx))
                       (cell w ev ! ?idx) (cell w (polypool rkg) ! ?idx)]"
    let ?w1 = "store ev ?e1 w"
    have idx: "?idx < length (Modulus ?c)" using True "1.prems"(6) by simp
    have row: "injectRow ?c ev (polypool rkg) ?idx w = Inr ?w1"
      using "1.prems" idx by (simp add: injectRow_run)
    have sh1: "shaped ?c ?e1"
      using "1.prems" idx by (simp add: shaped_inject_row)
    show ?thesis
    proof (cases "?idx = length (Modulus (ContextQ ?bc))")
      case brk: True
      show ?thesis
        by (subst injectLoop.simps, subst injected.simps) (use True row brk in \<open>simp add: Let_def\<close>)
    next
      case nobrk: False
      have ih: "injectLoop rkg ev i (Suc j) ?w1 =
          Inr (store ev (injected ?bc (cell ?w1 (polypool rkg)) i (Suc j) (cell ?w1 ev)) ?w1)"
        using "1.IH" [OF True row nobrk] "1.prems" sh1 by simp
      show ?thesis
        by (subst injectLoop.simps, subst injected.simps)
          (use True row nobrk ih "1.prems" in \<open>simp add: Let_def\<close>)
    qed
  qed
qed


lemma valid_grow [simp]:
  "valid w p \<Longrightarrow> valid (w\<lparr>heap := heap w @ xs, drawn := d\<rparr>) p"
  "valid w p \<Longrightarrow> valid (w\<lparr>drawn := d, heap := heap w @ xs\<rparr>) p"
  "valid w p \<Longrightarrow> valid (w\<lparr>heap := heap w @ xs\<rparr>) p"
  by (simp_all add: valid_def)

lemma cell_grow [simp]:
  "valid w p \<Longrightarrow> cell (w\<lparr>heap := heap w @ xs, drawn := d\<rparr>) p = cell w p"
  "valid w p \<Longrightarrow> cell (w\<lparr>drawn := d, heap := heap w @ xs\<rparr>) p = cell w p"
  "valid w p \<Longrightarrow> cell (w\<lparr>heap := heap w @ xs\<rparr>) p = cell w p"
  by (cases p; simp add: valid_def cell_def nth_append)+

lemma valid_new [simp]:
  "valid (w\<lparr>heap := heap w @ [x], drawn := d\<rparr>) (Suc (length (heap w)))"
  "valid (w\<lparr>drawn := d, heap := heap w @ [x]\<rparr>) (Suc (length (heap w)))"
  "valid (w\<lparr>heap := heap w @ [x]\<rparr>) (Suc (length (heap w)))"
  by (simp_all add: valid_def)

lemma cell_new [simp]:
  "cell (w\<lparr>heap := heap w @ [x], drawn := d\<rparr>) (Suc (length (heap w))) = x"
  "cell (w\<lparr>drawn := d, heap := heap w @ [x]\<rparr>) (Suc (length (heap w))) = x"
  "cell (w\<lparr>heap := heap w @ [x]\<rparr>) (Suc (length (heap w))) = x"
  by (simp_all add: cell_def)

lemma store_new [simp]:
  "store (Suc (length (heap w))) y (w\<lparr>drawn := d, heap := heap w @ [x]\<rparr>)
     = w\<lparr>drawn := d, heap := heap w @ [y]\<rparr>"
  "store (Suc (length (heap w))) y (w\<lparr>heap := heap w @ [x]\<rparr>) = w\<lparr>heap := heap w @ [y]\<rparr>"
  by (simp_all add: store_def)

lemma valid_le: "valid w p \<Longrightarrow> p \<le> length (heap w)"
  by (simp add: valid_def)

lemma shaped_injected:
  assumes "shaped (ContextKeys bc) e" "shaped (ContextKeys bc) pool"
    and "i * Alpha bc + Alpha bc \<le> length (Modulus (ContextKeys bc))"
  shows "shaped (ContextKeys bc) (injected bc pool i j e)"
  using assms
proof (induction bc pool i j e rule: injected.induct)
  case (1 bc pool i j e)
  show ?case
  proof (cases "j < Alpha bc")
    case False
    then show ?thesis using "1.prems" by (subst injected.simps) simp
  next
    case True
    let ?idx = "i * Alpha bc + j"
    let ?e1 = "e[?idx := map2 (\<lambda>x y. CRed (x + y) (Modulus (ContextKeys bc) ! ?idx))
                                  (e ! ?idx) (pool ! ?idx)]"
    have idx: "?idx < length (Modulus (ContextKeys bc))" using True "1.prems"(3) by simp
    have sh1: "shaped (ContextKeys bc) ?e1"
      using "1.prems" idx by (simp add: shaped_inject_row)
    show ?thesis
    proof (cases "?idx = length (Modulus (ContextQ bc))")
      case brk: True
      then show ?thesis using True sh1 by (subst injected.simps) (simp add: Let_def)
    next
      case nobrk: False
      have "shaped (ContextKeys bc) (injected bc pool i (Suc j) ?e1)"
        using "1.IH" [OF True refl refl nobrk sh1 "1.prems"(2,3)] .
      then show ?thesis using True nobrk by (subst injected.simps) (simp add: Let_def)
    qed
  qed
qed

text \<open>One round of the loop over the digits.\<close>

lemma digit_round:
  assumes sk: "valid w sk" "shaped (ContextKeys (bfvContext rkg)) (cell w sk)"
    and pool: "valid w (polypool rkg)"
      "shaped (ContextKeys (bfvContext rkg)) (cell w (polypool rkg))"
    and crp: "valid w ci" "shaped (ContextKeys (bfvContext rkg)) (cell w ci)"
    and noise: "shaped (ContextKeys (bfvContext rkg)) (GaussianSampler (bfvContext rkg) (drawn w))"
    and range: "i * Alpha (bfvContext rkg) + Alpha (bfvContext rkg)
                  \<le> length (Modulus (ContextKeys (bfvContext rkg)))"
  shows "\<exists>w2 w3. injectLoop rkg (Suc (length (heap w))) i 0
            (w\<lparr>drawn := Suc (drawn w), heap := heap w @ [GaussianSampler (bfvContext rkg) (drawn w)]\<rparr>)
          = Inr w2 \<and>
        MulCoeffsMontgomeryAndSub (ContextKeys (bfvContext rkg)) ci sk (Suc (length (heap w))) w2
          = Inr w3 \<and>
        MForm (ContextKeys (bfvContext rkg)) (Suc (length (heap w))) (Suc (length (heap w))) w3
          = Inr (w\<lparr>drawn := Suc (drawn w),
                   heap := heap w @ [digit (bfvContext rkg) (cell w (polypool rkg)) (cell w sk)
                      (cell w ci) i (GaussianSampler (bfvContext rkg) (drawn w))]\<rparr>)"
proof -
  let ?bc = "bfvContext rkg"
  let ?c = "ContextKeys ?bc"
  let ?ev = "Suc (length (heap w))"
  let ?e = "GaussianSampler ?bc (drawn w)"
  let ?w1 = "w\<lparr>drawn := Suc (drawn w), heap := heap w @ [?e]\<rparr>"
  let ?e1 = "injected ?bc (cell w (polypool rkg)) i 0 ?e"
  let ?w2 = "w\<lparr>drawn := Suc (drawn w), heap := heap w @ [?e1]\<rparr>"
  let ?e2 = "rows3 MulSubC ?c (cell w ci) (cell w sk) ?e1"
  let ?w3 = "w\<lparr>drawn := Suc (drawn w), heap := heap w @ [?e2]\<rparr>"
  have ne: "?ev \<noteq> polypool rkg" using valid_le [OF pool(1)] by simp
  have a: "injectLoop rkg ?ev i 0 ?w1 = Inr ?w2"
    using injectLoop_run [of ?w1 ?ev rkg i 0] pool noise range ne by simp
  have sh1: "shaped ?c ?e1"
    using noise pool range by (simp add: shaped_injected)
  have b: "MulCoeffsMontgomeryAndSub ?c ci sk ?ev ?w2 = Inr ?w3"
    using MulSub_run [of ?w2 ci ?c sk ?ev] sk crp sh1 by simp
  have c: "MForm ?c ?ev ?ev ?w3 = Inr (w\<lparr>drawn := Suc (drawn w),
                   heap := heap w @ [digit ?bc (cell w (polypool rkg)) (cell w sk)
                      (cell w ci) i ?e]\<rparr>)"
    using op1_run [of ?w3 ?ev ?c ?ev MFormC] sk crp sh1
    by (simp add: MForm_def digit_def)
  show ?thesis using a b c by blast
qed


lemma digitLoop_run:
  assumes sk: "valid w sk" "shaped (ContextKeys (bfvContext rkg)) (cell w sk)"
    and pool: "valid w (polypool rkg)"
      "shaped (ContextKeys (bfvContext rkg)) (cell w (polypool rkg))"
    and crp: "Beta (bfvContext rkg) \<le> length crp"
      "\<forall>k<Beta (bfvContext rkg). valid w (crp ! k) \<and>
          shaped (ContextKeys (bfvContext rkg)) (cell w (crp ! k))"
    and noise: "\<forall>n. shaped (ContextKeys (bfvContext rkg)) (GaussianSampler (bfvContext rkg) n)"
    and range: "Beta (bfvContext rkg) * Alpha (bfvContext rkg)
                  \<le> length (Modulus (ContextKeys (bfvContext rkg)))"
    and len: "length evakey = Beta (bfvContext rkg)" "i \<le> Beta (bfvContext rkg)"
  shows "digitLoop rkg sk crp i evakey w =
     Inr (take i evakey @ map (\<lambda>k. Suc (length (heap w)) + (k - i)) [i..<Beta (bfvContext rkg)],
          w\<lparr>drawn := drawn w + (Beta (bfvContext rkg) - i),
            heap := heap w @ map (\<lambda>k. digit (bfvContext rkg) (cell w (polypool rkg)) (cell w sk)
                      (cell w (crp ! k)) k (GaussianSampler (bfvContext rkg) (drawn w + (k - i))))
                    [i..<Beta (bfvContext rkg)]\<rparr>)"
  using assms
proof (induction rkg sk crp i evakey w rule: digitLoop.induct)
  case (1 rkg sk crp i evakey w)
  let ?bc = "bfvContext rkg"
  let ?c = "ContextKeys ?bc"
  let ?B = "Beta ?bc"
  show ?case
  proof (cases "i < ?B")
    case False
    then have "i = ?B" using "1.prems" by simp
    then show ?thesis using "1.prems" by (subst digitLoop.simps) simp
  next
    case True
    let ?ev = "Suc (length (heap w))"
    let ?e = "GaussianSampler ?bc (drawn w)"
    let ?w1 = "w\<lparr>drawn := Suc (drawn w), heap := heap w @ [?e]\<rparr>"
    let ?d = "digit ?bc (cell w (polypool rkg)) (cell w sk) (cell w (crp ! i)) i ?e"
    let ?w4 = "w\<lparr>drawn := Suc (drawn w), heap := heap w @ [?d]\<rparr>"
    have smp: "SampleNTTNew ?bc w = (?ev, ?w1)"
      by (simp add: SampleNTTNew_def alloc_def)
    have rng: "i * Alpha ?bc + Alpha ?bc \<le> length (Modulus ?c)"
    proof -
      have "Suc i * Alpha ?bc \<le> ?B * Alpha ?bc"
        using True by (intro mult_le_mono1) simp
      then show ?thesis using "1.prems"(8) by simp
    qed
    obtain w2 w3 where r: "injectLoop rkg ?ev i 0 ?w1 = Inr w2"
        "MulCoeffsMontgomeryAndSub ?c (crp ! i) sk ?ev w2 = Inr w3"
        "MForm ?c ?ev ?ev w3 = Inr ?w4"
      using digit_round [OF "1.prems"(1-4) _ _ _ rng, of "crp ! i"] "1.prems"(6,7) True
      by blast
    have ci: "\<not> length crp \<le> i" using True "1.prems"(5) by simp
    have ih: "digitLoop rkg sk crp (Suc i) (evakey[i := ?ev]) ?w4 =
       Inr (take (Suc i) (evakey[i := ?ev]) @ map (\<lambda>k. Suc (length (heap ?w4)) + (k - Suc i)) [Suc i..<?B],
          ?w4\<lparr>drawn := drawn ?w4 + (?B - Suc i),
            heap := heap ?w4 @ map (\<lambda>k. digit ?bc (cell ?w4 (polypool rkg)) (cell ?w4 sk)
                      (cell ?w4 (crp ! k)) k (GaussianSampler ?bc (drawn ?w4 + (k - Suc i))))
                    [Suc i..<?B]\<rparr>)"
      using "1.IH" [OF True smp [symmetric] r(1) ci r(2) r(3)] "1.prems" True
      by simp
    have step: "digitLoop rkg sk crp i evakey w = digitLoop rkg sk crp (Suc i) (evakey[i := ?ev]) ?w4"
      by (subst digitLoop.simps) (simp add: True smp r ci)
    have upt: "[i..<?B] = i # [Suc i..<?B]" using True by (rule upt_conv_Cons)
    have ev: "take (Suc i) (evakey[i := ?ev]) @ map (\<lambda>k. Suc (length (heap ?w4)) + (k - Suc i)) [Suc i..<?B]
        = take i evakey @ map (\<lambda>k. Suc (length (heap w)) + (k - i)) [i..<?B]"
    proof -
      have "take (Suc i) (evakey[i := ?ev]) = take i evakey @ [?ev]"
        using True "1.prems"(9) by (simp add: take_Suc_conv_app_nth)
      moreover have "map (\<lambda>k. Suc (length (heap ?w4)) + (k - Suc i)) [Suc i..<?B]
          = map (\<lambda>k. Suc (length (heap w)) + (k - i)) [Suc i..<?B]"
        by (rule map_cong) auto
      ultimately show ?thesis unfolding upt by simp
    qed
    have hp: "heap ?w4 @ map (\<lambda>k. digit ?bc (cell ?w4 (polypool rkg)) (cell ?w4 sk)
                      (cell ?w4 (crp ! k)) k (GaussianSampler ?bc (drawn ?w4 + (k - Suc i))))
                    [Suc i..<?B]
        = heap w @ map (\<lambda>k. digit ?bc (cell w (polypool rkg)) (cell w sk)
                      (cell w (crp ! k)) k (GaussianSampler ?bc (drawn w + (k - i))))
                    [i..<?B]"
    proof -
      have "map (\<lambda>k. digit ?bc (cell ?w4 (polypool rkg)) (cell ?w4 sk)
                      (cell ?w4 (crp ! k)) k (GaussianSampler ?bc (drawn ?w4 + (k - Suc i))))
                    [Suc i..<?B]
          = map (\<lambda>k. digit ?bc (cell w (polypool rkg)) (cell w sk)
                      (cell w (crp ! k)) k (GaussianSampler ?bc (drawn w + (k - i))))
                    [Suc i..<?B]"
      proof (rule map_cong [OF refl])
        fix k assume "k \<in> set [Suc i..<?B]"
        then have k: "Suc i \<le> k" "k < ?B" by simp_all
        then have dr: "drawn ?w4 + (k - Suc i) = drawn w + (k - i)" by simp
        have "valid w (crp ! k)" using k "1.prems"(6) by simp
        then have cs: "cell ?w4 (polypool rkg) = cell w (polypool rkg)" "cell ?w4 sk = cell w sk"
            "cell ?w4 (crp ! k) = cell w (crp ! k)"
          using "1.prems"(1,3) by simp_all
        show "digit ?bc (cell ?w4 (polypool rkg)) (cell ?w4 sk)
                      (cell ?w4 (crp ! k)) k (GaussianSampler ?bc (drawn ?w4 + (k - Suc i)))
            = digit ?bc (cell w (polypool rkg)) (cell w sk)
                      (cell w (crp ! k)) k (GaussianSampler ?bc (drawn w + (k - i)))"
          by (simp only: dr cs)
      qed
      then show ?thesis unfolding upt by simp
    qed
    show ?thesis
      unfolding step ih ev hp using True by simp
  qed
qed


lemma genswitchkey_run:
  assumes sk: "valid w sk" "shaped (ContextKeys (bfvContext rkg)) (cell w sk)"
    and pool: "valid w (polypool rkg)"
      "shaped (ContextKeys (bfvContext rkg)) (cell w (polypool rkg))"
    and crp: "Beta (bfvContext rkg) \<le> length crp"
      "\<forall>k<Beta (bfvContext rkg). valid w (crp ! k) \<and>
          shaped (ContextKeys (bfvContext rkg)) (cell w (crp ! k))"
    and noise: "\<forall>n. shaped (ContextKeys (bfvContext rkg)) (GaussianSampler (bfvContext rkg) n)"
    and range: "Beta (bfvContext rkg) * Alpha (bfvContext rkg)
                  \<le> length (Modulus (ContextKeys (bfvContext rkg)))"
  shows "genswitchkey rkg sk_in sk crp w =
     Inr (map (\<lambda>k. Suc (length (heap w)) + k) [0..<Beta (bfvContext rkg)],
          w\<lparr>drawn := drawn w + Beta (bfvContext rkg),
            heap := heap w @ map (\<lambda>k. digit (bfvContext rkg) (cell w (polypool rkg)) (cell w sk)
                      (cell w (crp ! k)) k (GaussianSampler (bfvContext rkg) (drawn w + k)))
                    [0..<Beta (bfvContext rkg)]\<rparr>)"
  unfolding genswitchkey_def
  using digitLoop_run [OF assms, of "replicate (Beta (bfvContext rkg)) nil" 0]
  by simp

lemma scaleLoop_run:
  assumes "valid w p" "shaped c (cell w p)"
  shows "scaleLoop c p ps w =
     Inr (store p (foldl (\<lambda>x pj. rows1 (MulScalarC pj) c x) (cell w p) ps) w)"
  using assms
proof (induction ps arbitrary: w)
  case Nil
  then show ?case by (simp add: store_cell_id)
next
  case (Cons pj ps)
  let ?w1 = "store p (rows1 (MulScalarC pj) c (cell w p)) w"
  have "MulScalar c p pj p w = Inr ?w1"
    using Cons.prems by (simp add: MulScalar_def op1_run)
  moreover have "scaleLoop c p ps ?w1 =
     Inr (store p (foldl (\<lambda>x pj. rows1 (MulScalarC pj) c x) (cell ?w1 p) ps) ?w1)"
    using Cons.prems by (intro Cons.IH) simp_all
  ultimately show ?case using Cons.prems by simp
qed

lemma rotShare_prep:
  assumes sk: "valid w sk" "shaped (ContextKeys (bfvContext rkg)) (cell w sk)"
    and pool: "valid w (polypool rkg)"
      "shaped (ContextKeys (bfvContext rkg)) (cell w (polypool rkg))"
    and ne: "sk \<noteq> polypool rkg"
    and perm: "\<forall>g a. shaped (ContextKeys (bfvContext rkg)) a
                 \<longrightarrow> shaped (ContextKeys (bfvContext rkg)) (perm g a)"
  shows "rotShare perm rkg sk g crp w =
     genswitchkey rkg (polypool rkg) sk crp
       (store (polypool rkg) (prepared perm (bfvContext rkg) g (cell w sk)) w)"
proof -
  let ?c = "ContextKeys (bfvContext rkg)"
  let ?p = "polypool rkg"
  let ?s = "cell w sk"
  let ?w1 = "store ?p (perm g ?s) w"
  let ?w2 = "store ?p (rows2 SubC ?c (perm g ?s) ?s) w"
  let ?x3 = "foldl (\<lambda>x pj. rows1 (MulScalarC pj) ?c x) (rows2 SubC ?c (perm g ?s) ?s)
               (KeySwitchPrimes (bfvContext rkg))"
  let ?w3 = "store ?p ?x3 w"
  have shp: "shaped ?c (perm g ?s)" using perm sk by simp
  have 1: "PermuteNTT perm ?c sk g ?p w = Inr ?w1"
    using sk pool by (simp add: PermuteNTT_def)
  have 2: "Sub ?c ?p sk ?p ?w1 = Inr ?w2"
    using sk pool ne shp by (simp add: Sub_def op2_run)
  have 3: "scaleLoop ?c ?p (KeySwitchPrimes (bfvContext rkg)) ?w2 = Inr ?w3"
    using sk pool shp by (simp add: scaleLoop_run)
  have sh3: "shaped ?c ?x3"
  proof -
    have "shaped ?c x \<Longrightarrow> shaped ?c (foldl (\<lambda>x pj. rows1 (MulScalarC pj) ?c x) x ps)" for x ps
      by (induction ps arbitrary: x) simp_all
    then show ?thesis using sk shp by simp
  qed
  have 4: "InvMForm ?c ?p ?p ?w3 = Inr (store ?p (prepared perm (bfvContext rkg) g ?s) w)"
    using pool sh3 by (simp add: InvMForm_def op1_run prepared_def)
  show ?thesis
    unfolding rotShare_def Let_def by (simp add: 1 2 3 4)
qed

lemma shaped_prepared:
  assumes "shaped (ContextKeys bc) s"
    and "\<forall>g a. shaped (ContextKeys bc) a \<longrightarrow> shaped (ContextKeys bc) (perm g a)"
  shows "shaped (ContextKeys bc) (prepared perm bc g s)"
proof -
  have "shaped (ContextKeys bc) x \<Longrightarrow>
      shaped (ContextKeys bc) (foldl (\<lambda>x pj. rows1 (MulScalarC pj) (ContextKeys bc) x) x ps)" for x ps
    by (induction ps arbitrary: x) simp_all
  then show ?thesis using assms by (simp add: prepared_def)
qed

lemma rotShare_run:
  assumes sk: "valid w sk" "shaped (ContextKeys (bfvContext rkg)) (cell w sk)"
    and pool: "valid w (polypool rkg)"
      "shaped (ContextKeys (bfvContext rkg)) (cell w (polypool rkg))"
    and ne: "sk \<noteq> polypool rkg"
    and perm: "\<forall>g a. shaped (ContextKeys (bfvContext rkg)) a
                 \<longrightarrow> shaped (ContextKeys (bfvContext rkg)) (perm g a)"
    and crp: "Beta (bfvContext rkg) \<le> length crp"
      "\<forall>k<Beta (bfvContext rkg). valid w (crp ! k) \<and> crp ! k \<noteq> polypool rkg \<and>
          shaped (ContextKeys (bfvContext rkg)) (cell w (crp ! k))"
    and noise: "\<forall>n. shaped (ContextKeys (bfvContext rkg)) (GaussianSampler (bfvContext rkg) n)"
    and range: "Beta (bfvContext rkg) * Alpha (bfvContext rkg)
                  \<le> length (Modulus (ContextKeys (bfvContext rkg)))"
  shows "rotShare perm rkg sk g crp w =
     Inr (map (\<lambda>k. Suc (length (heap w)) + k) [0..<Beta (bfvContext rkg)],
          w\<lparr>drawn := drawn w + Beta (bfvContext rkg),
            heap := (heap w)[polypool rkg - 1 := prepared perm (bfvContext rkg) g (cell w sk)]
               @ map (\<lambda>k. digit (bfvContext rkg) (prepared perm (bfvContext rkg) g (cell w sk))
                      (cell w sk) (cell w (crp ! k)) k
                      (GaussianSampler (bfvContext rkg) (drawn w + k)))
                    [0..<Beta (bfvContext rkg)]\<rparr>)"
proof -
  let ?bc = "bfvContext rkg"
  let ?d = "prepared perm ?bc g (cell w sk)"
  let ?w1 = "store (polypool rkg) ?d w"
  have shd: "shaped (ContextKeys ?bc) ?d" using sk perm by (simp add: shaped_prepared)
  have c1: "\<forall>k<Beta ?bc. valid ?w1 (crp ! k) \<and> shaped (ContextKeys ?bc) (cell ?w1 (crp ! k))"
    using crp pool by simp
  have "genswitchkey rkg (polypool rkg) sk crp ?w1 =
     Inr (map (\<lambda>k. Suc (length (heap ?w1)) + k) [0..<Beta ?bc],
          ?w1\<lparr>drawn := drawn ?w1 + Beta ?bc,
            heap := heap ?w1 @ map (\<lambda>k. digit ?bc (cell ?w1 (polypool rkg)) (cell ?w1 sk)
                      (cell ?w1 (crp ! k)) k (GaussianSampler ?bc (drawn ?w1 + k)))
                    [0..<Beta ?bc]\<rparr>)"
    using sk pool ne shd crp(1) c1 noise range by (intro genswitchkey_run) simp_all
  moreover have "map (\<lambda>k. digit ?bc (cell ?w1 (polypool rkg)) (cell ?w1 sk)
                      (cell ?w1 (crp ! k)) k (GaussianSampler ?bc (drawn ?w1 + k))) [0..<Beta ?bc]
      = map (\<lambda>k. digit ?bc ?d (cell w sk) (cell w (crp ! k)) k
                      (GaussianSampler ?bc (drawn w + k))) [0..<Beta ?bc]"
    using sk pool ne crp by (intro map_cong) simp_all
  ultimately show ?thesis
    unfolding rotShare_prep [OF sk pool ne perm] by (simp add: store_def)
qed

subsection \<open>Coefficients of a share\<close>

lemma injected_length [simp]: "length (injected bc pool i j e) = length e"
proof (induction bc pool i j e rule: injected.induct)
  case (1 bc pool i j e)
  show ?case
    by (subst injected.simps) (use 1 in \<open>simp add: Let_def\<close>)
qed

lemma injected_row:
  assumes "l < length e"
  shows "injected bc pool i j e ! l =
     (if i * Alpha bc + j \<le> l \<and> l < i * Alpha bc + Alpha bc \<and>
         (length (Modulus (ContextQ bc)) < i * Alpha bc + j \<or> l \<le> length (Modulus (ContextQ bc)))
      then map2 (\<lambda>x y. CRed (x + y) (Modulus (ContextKeys bc) ! l)) (e ! l) (pool ! l)
      else e ! l)"
  using assms
proof (induction bc pool i j e rule: injected.induct)
  case (1 bc pool i j e)
  let ?A = "Alpha bc"
  let ?lq = "length (Modulus (ContextQ bc))"
  show ?case
  proof (cases "j < ?A")
    case False
    then show ?thesis by (subst injected.simps) auto
  next
    case True
    let ?idx = "i * ?A + j"
    let ?e1 = "e[?idx := map2 (\<lambda>x y. CRed (x + y) (Modulus (ContextKeys bc) ! ?idx))
                                  (e ! ?idx) (pool ! ?idx)]"
    show ?thesis
    proof (cases "?idx = ?lq")
      case brk: True
      have "injected bc pool i j e = ?e1"
        by (subst injected.simps) (use True brk in \<open>simp add: Let_def\<close>)
      then show ?thesis using "1.prems" True brk by (auto simp: nth_list_update)
    next
      case nobrk: False
      have eq: "injected bc pool i j e = injected bc pool i (Suc j) ?e1"
        by (subst injected.simps) (use True nobrk in \<open>simp add: Let_def\<close>)
      have ih: "injected bc pool i (Suc j) ?e1 ! l =
         (if i * ?A + Suc j \<le> l \<and> l < i * ?A + ?A \<and> (?lq < i * ?A + Suc j \<or> l \<le> ?lq)
          then map2 (\<lambda>x y. CRed (x + y) (Modulus (ContextKeys bc) ! l)) (?e1 ! l) (pool ! l)
          else ?e1 ! l)"
        using "1.IH" [OF True refl refl nobrk] "1.prems" by simp
      show ?thesis
        unfolding eq ih using "1.prems" True nobrk by (auto simp: nth_list_update)
    qed
  qed
qed


lemma reduced_coeff:
  assumes "reduced c p" "l < length (Modulus c)" "j < length (p ! l)"
  shows "p ! l ! j < Modulus c ! l"
proof -
  have "list_all (\<lambda>x. x < Modulus c ! l) (p ! l)"
    using assms(1,2) unfolding reduced_def by (rule list_all2_nthD)
  then show ?thesis using assms(3) by (simp add: list_all_length)
qed

lemma reducedI:
  assumes "shaped c p"
    and "\<And>l j. l < length (Modulus c) \<Longrightarrow> j < unat (ctxN c) \<Longrightarrow> p ! l ! j < Modulus c ! l"
  shows "reduced c p"
  unfolding reduced_def
  using assms by (auto simp: list_all2_conv_all_nth list_all_length shaped_def)

lemma unat_word_of_nat_less:
  assumes "n < unat (q :: u64)"
  shows "unat (word_of_nat n :: u64) = n"
proof -
  have "unat q < 2 ^ 64" using unsigned_less [of q] by simp
  then have "n < 2 ^ 64" using assms by simp
  then show ?thesis by (simp add: unat_of_nat)
qed

lemma unat_mod_word:
  assumes "0 < q"
  shows "unat (word_of_nat (n mod unat q) :: u64) = n mod unat (q :: u64)"
    and "(word_of_nat (n mod unat q) :: u64) < q"
proof -
  have q: "0 < unat q" using assms by (simp add: word_less_nat_alt)
  then have l: "n mod unat q < unat q" by simp
  show u: "unat (word_of_nat (n mod unat q) :: u64) = n mod unat q"
    using l by (rule unat_word_of_nat_less)
  show "(word_of_nat (n mod unat q) :: u64) < q"
    using l u by (simp add: word_less_nat_alt)
qed

lemma unat_CRed_sum:
  assumes "a < q" "unat b \<le> unat q" "unat q < 2 ^ 63"
  shows "unat (CRed (a + b) q) = (unat a + unat b) mod unat q"
    and "CRed (a + b) q < q"
proof -
  have a: "unat a < unat q" using assms(1) by (simp add: word_less_nat_alt)
  have s: "unat (a + b) = unat a + unat b"
    using a assms(2,3) by (simp add: unat_add_lem [THEN iffD1])
  show u: "unat (CRed (a + b) q) = (unat a + unat b) mod unat q"
  proof (cases "q \<le> a + b")
    case True
    then have le: "unat q \<le> unat a + unat b" using s by (simp add: word_le_nat_alt)
    have "unat (CRed (a + b) q) = unat a + unat b - unat q"
      using True s by (simp add: CRed_def unat_sub)
    moreover have "(unat a + unat b) mod unat q = unat a + unat b - unat q"
      using le a assms(2) by (simp add: mod_if le_mod_geq)
    ultimately show ?thesis by simp
  next
    case False
    then have "unat a + unat b < unat q" using s by (simp add: word_le_nat_alt)
    then show ?thesis using False s by (simp add: CRed_def)
  qed
  have "0 < unat q" using a by simp
  then have "(unat a + unat b) mod unat q < unat q" by simp
  then show "CRed (a + b) q < q" using u by (simp add: word_less_nat_alt)
qed

lemma unat_MRed:
  assumes "0 < q"
  shows "unat (MRed a b q) = (unat a * unat b * Rinv (unat q)) mod unat q"
    and "MRed a b q < q"
  unfolding MRed_def using unat_mod_word [OF assms] by simp_all

lemma unat_MFormC:
  assumes "0 < q"
  shows "unat (MFormC a q) = (unat a * 2 ^ 64) mod unat q"
    and "MFormC a q < q"
  unfolding MFormC_def using unat_mod_word [OF assms] by simp_all

lemma unat_InvMFormC:
  assumes "0 < q"
  shows "unat (InvMFormC a q) = (unat a * Rinv (unat q)) mod unat q"
    and "InvMFormC a q < q"
  unfolding InvMFormC_def using unat_mod_word [OF assms] by simp_all

lemma unat_MulSubC:
  assumes "x < q" "unat q < 2 ^ 63"
  shows "unat (MulSubC a b x q) = (unat x + (unat q - unat (MRed a b q))) mod unat q"
    and "MulSubC a b x q < q"
proof -
  have "unat x < unat q" using assms(1) by (simp add: word_less_nat_alt)
  then have "0 < unat q" by simp
  then have q: "0 < q" by (simp add: word_less_nat_alt)
  have m: "MRed a b q \<le> q" using unat_MRed(2) [OF q, of a b] by simp
  have d: "unat (q - MRed a b q) = unat q - unat (MRed a b q)"
    using m by (rule unat_sub)
  then have le: "unat (q - MRed a b q) \<le> unat q" by simp
  show "unat (MulSubC a b x q) = (unat x + (unat q - unat (MRed a b q))) mod unat q"
    unfolding MulSubC_def using unat_CRed_sum(1) [OF assms(1) le assms(2)] d by simp
  show "MulSubC a b x q < q"
    unfolding MulSubC_def using unat_CRed_sum(2) [OF assms(1) le assms(2)] .
qed


lemma scaled_coeff:
  assumes "shaped c x" "l < length (Modulus c)" "j < unat (ctxN c)"
  shows "foldl (\<lambda>x pj. rows1 (MulScalarC pj) c x) x ps ! l ! j
           = foldl (\<lambda>a pj. MulScalarC pj a (Modulus c ! l)) (x ! l ! j) ps"
  using assms(1)
proof (induction ps arbitrary: x)
  case Nil
  then show ?case by simp
next
  case (Cons pj ps)
  have "shaped c (rows1 (MulScalarC pj) c x)" using Cons.prems by simp
  then show ?case using Cons.IH Cons.prems assms(2,3) by (simp add: rows1_coeff)
qed

lemma scaled_zero: "foldl (\<lambda>a pj. MulScalarC pj a q) 0 ps = 0"
  by (induction ps) (simp_all add: MulScalarC_def)

lemma scaled_by_own_prime:
  "q \<in> set ps \<Longrightarrow> foldl (\<lambda>a pj. MulScalarC pj a q) a ps = 0"
proof (induction ps arbitrary: a)
  case Nil
  then show ?case by simp
next
  case (Cons pj ps)
  show ?case
  proof (cases "pj = q")
    case True
    then have "MulScalarC pj a q = 0" by (simp add: MulScalarC_def)
    then show ?thesis by (simp add: scaled_zero)
  next
    case False
    then have "q \<in> set ps" using Cons.prems by simp
    then show ?thesis using Cons.IH by simp
  qed
qed

lemma prepared_coeff:
  assumes "shaped (ContextKeys bc) s"
    and "\<forall>g a. shaped (ContextKeys bc) a \<longrightarrow> shaped (ContextKeys bc) (perm g a)"
    and "l < length (Modulus (ContextKeys bc))" "j < unat (ctxN (ContextKeys bc))"
  shows "prepared perm bc g s ! l ! j =
     InvMFormC (foldl (\<lambda>a pj. MulScalarC pj a (Modulus (ContextKeys bc) ! l))
                  (SubC (perm g s ! l ! j) (s ! l ! j) (Modulus (ContextKeys bc) ! l))
                  (KeySwitchPrimes bc))
       (Modulus (ContextKeys bc) ! l)"
proof -
  let ?c = "ContextKeys bc"
  have sh: "shaped ?c (perm g s)" using assms(1,2) by simp
  have sh2: "shaped ?c (rows2 SubC ?c (perm g s) s)" using sh assms(1) by simp
  have sh3: "shaped ?c (foldl (\<lambda>x pj. rows1 (MulScalarC pj) ?c x)
                 (rows2 SubC ?c (perm g s) s) (KeySwitchPrimes bc))"
  proof -
    have "shaped ?c x \<Longrightarrow> shaped ?c (foldl (\<lambda>x pj. rows1 (MulScalarC pj) ?c x) x ps)" for x ps
      by (induction ps arbitrary: x) simp_all
    then show ?thesis using sh2 by simp
  qed
  show ?thesis
    unfolding prepared_def
    using assms(3,4) sh assms(1)
    by (simp add: rows1_coeff [OF sh3] scaled_coeff [OF sh2] rows2_coeff)
qed

lemma prepared_zero:
  assumes "shaped (ContextKeys bc) s"
    and "\<forall>g a. shaped (ContextKeys bc) a \<longrightarrow> shaped (ContextKeys bc) (perm g a)"
    and "Modulus (ContextKeys bc) = Modulus (ContextQ bc) @ KeySwitchPrimes bc"
    and "length (Modulus (ContextQ bc)) \<le> l"
    and "l < length (Modulus (ContextKeys bc))" "j < unat (ctxN (ContextKeys bc))"
  shows "prepared perm bc g s ! l ! j = 0"
proof -
  have "Modulus (ContextKeys bc) ! l = KeySwitchPrimes bc ! (l - length (Modulus (ContextQ bc)))"
    using assms(3,4) by (simp add: nth_append)
  moreover have "l - length (Modulus (ContextQ bc)) < length (KeySwitchPrimes bc)"
    using assms(3,4,5) by simp
  ultimately have "Modulus (ContextKeys bc) ! l \<in> set (KeySwitchPrimes bc)"
    by (metis nth_mem)
  then show ?thesis
    unfolding prepared_coeff [OF assms(1,2,5,6)]
    by (simp add: scaled_by_own_prime InvMFormC_def)
qed

lemma prepared_reduced:
  assumes "shaped (ContextKeys bc) s"
    and "\<forall>g a. shaped (ContextKeys bc) a \<longrightarrow> shaped (ContextKeys bc) (perm g a)"
    and "\<forall>q \<in> set (Modulus (ContextKeys bc)). 0 < q"
  shows "reduced (ContextKeys bc) (prepared perm bc g s)"
proof (rule reducedI)
  show "shaped (ContextKeys bc) (prepared perm bc g s)"
    using assms(1,2) by (rule shaped_prepared)
next
  fix l j assume l: "l < length (Modulus (ContextKeys bc))" and j: "j < unat (ctxN (ContextKeys bc))"
  have "0 < Modulus (ContextKeys bc) ! l" using assms(3) l by simp
  then show "prepared perm bc g s ! l ! j < Modulus (ContextKeys bc) ! l"
    unfolding prepared_coeff [OF assms(1,2) l j] by (rule unat_InvMFormC(2))
qed

text \<open>The coefficients of one digit of the share.\<close>

lemma digit_coeff:
  assumes sh: "shaped (ContextKeys bc) pool" "shaped (ContextKeys bc) so"
      "shaped (ContextKeys bc) ci" "shaped (ContextKeys bc) e"
    and rng: "i * Alpha bc + Alpha bc \<le> length (Modulus (ContextKeys bc))"
    and l: "l < length (Modulus (ContextKeys bc))" and j: "j < unat (ctxN (ContextKeys bc))"
  shows "digit bc pool so ci i e ! l ! j =
     MFormC (MulSubC (ci ! l ! j) (so ! l ! j)
        (if i * Alpha bc \<le> l \<and> l < i * Alpha bc + Alpha bc \<and>
            (length (Modulus (ContextQ bc)) < i * Alpha bc \<or> l \<le> length (Modulus (ContextQ bc)))
         then CRed (e ! l ! j + pool ! l ! j) (Modulus (ContextKeys bc) ! l)
         else e ! l ! j)
        (Modulus (ContextKeys bc) ! l)) (Modulus (ContextKeys bc) ! l)"
proof -
  let ?c = "ContextKeys bc"
  have shi: "shaped ?c (injected bc pool i 0 e)"
    using sh(4,1) rng by (rule shaped_injected)
  have le: "l < length e" using sh(4) l by (simp add: shaped_def)
  have row: "length (e ! l) = unat (ctxN ?c)" "length (pool ! l) = unat (ctxN ?c)"
    using sh l by (simp_all add: shaped_nth)
  have inj: "injected bc pool i 0 e ! l ! j =
        (if i * Alpha bc \<le> l \<and> l < i * Alpha bc + Alpha bc \<and>
            (length (Modulus (ContextQ bc)) < i * Alpha bc \<or> l \<le> length (Modulus (ContextQ bc)))
         then CRed (e ! l ! j + pool ! l ! j) (Modulus ?c ! l)
         else e ! l ! j)"
    using injected_row [OF le, of bc pool i 0] row j by auto
  show ?thesis
    unfolding digit_def
    using l j sh shi by (simp add: rows1_coeff rows3_coeff inj)
qed

subsection \<open>The digits of a share\<close>

lemma cell_final_new:
  assumes "i < length ds"
  shows "cell (w\<lparr>drawn := d, heap := (heap w)[p := x] @ ds\<rparr>) (Suc (length (heap w) + i)) = ds ! i"
  using assms by (simp add: cell_def nth_append)

lemma cell_final_pool:
  assumes "valid w p"
  shows "cell (w\<lparr>drawn := d, heap := (heap w)[p - 1 := x] @ ds\<rparr>) p = x"
  using assms by (cases p) (simp_all add: cell_def valid_def nth_append)

lemma cell_final_old:
  assumes "valid w a" "a \<noteq> p" "valid w p"
  shows "cell (w\<lparr>drawn := d, heap := (heap w)[p - 1 := x] @ ds\<rparr>) a = cell w a"
  using assms by (cases p; cases a) (simp_all add: cell_def valid_def nth_append)

text \<open>The arithmetic of one coefficient of a digit.\<close>

lemma digit_arith:
  assumes e: "e < q" and p: "p < q" and q: "unat q < 2 ^ 63"
    and z: "\<not> cov \<Longrightarrow> blk \<Longrightarrow> p = 0" and cb: "cov \<Longrightarrow> blk"
  shows "unat (MulSubC c so (if cov then CRed (e + p) q else e) q)
       = (unat e + (if blk then unat p else 0)
            + (unat q - (unat c * unat so * Rinv (unat q)) mod unat q)) mod unat q"
proof -
  have q0: "0 < q" using e by (metis word_gt_0 word_not_simps(1))
  have m: "unat (MRed c so q) = (unat c * unat so * Rinv (unat q)) mod unat q"
    using q0 by (rule unat_MRed(1))
  have pl: "unat p \<le> unat q" using p by (simp add: word_less_nat_alt)
  show ?thesis
  proof (cases cov)
    case True
    have "unat (MulSubC c so (CRed (e + p) q) q)
        = (unat (CRed (e + p) q) + (unat q - unat (MRed c so q))) mod unat q"
      using unat_CRed_sum(2) [OF e pl q] q by (rule unat_MulSubC(1))
    also have "\<dots> = ((unat e + unat p) mod unat q + (unat q - unat (MRed c so q))) mod unat q"
      by (simp only: unat_CRed_sum(1) [OF e pl q])
    also have "\<dots> = (unat e + unat p + (unat q - unat (MRed c so q))) mod unat q"
      by (rule mod_add_left_eq)
    finally show ?thesis using True cb by (simp add: m)
  next
    case False
    have "unat (MulSubC c so e q) = (unat e + (unat q - unat (MRed c so q))) mod unat q"
      using e q by (rule unat_MulSubC(1))
    then show ?thesis using False z by (auto simp: m)
  qed
qed


lemma rotShare_digits:
  assumes ctx: "Modulus (ContextKeys (bfvContext rkg))
                  = Modulus (ContextQ (bfvContext rkg)) @ KeySwitchPrimes (bfvContext rkg)"
    and bound: "\<forall>q \<in> set (Modulus (ContextKeys (bfvContext rkg))). 0 < q \<and> unat q < 2 ^ 63"
    and range: "Beta (bfvContext rkg) * Alpha (bfvContext rkg)
                  \<le> length (Modulus (ContextKeys (bfvContext rkg)))"
    and noise: "\<forall>n. shaped (ContextKeys (bfvContext rkg)) (GaussianSampler (bfvContext rkg) n) \<and>
                    reduced (ContextKeys (bfvContext rkg)) (GaussianSampler (bfvContext rkg) n)"
    and perm: "\<forall>g a. shaped (ContextKeys (bfvContext rkg)) a
                 \<longrightarrow> shaped (ContextKeys (bfvContext rkg)) (perm g a)"
    and sk: "valid w sk" "shaped (ContextKeys (bfvContext rkg)) (cell w sk)" "sk \<noteq> polypool rkg"
    and pool: "valid w (polypool rkg)"
      "shaped (ContextKeys (bfvContext rkg)) (cell w (polypool rkg))"
    and crp: "length crp = Beta (bfvContext rkg)"
      "\<forall>i<Beta (bfvContext rkg). valid w (crp ! i) \<and> crp ! i \<noteq> polypool rkg \<and>
          shaped (ContextKeys (bfvContext rkg)) (cell w (crp ! i))"
  shows "\<exists>evakey w'. rotShare perm rkg sk g crp w = Inr (evakey, w') \<and>
     length evakey = Beta (bfvContext rkg) \<and>
     cell w' (polypool rkg) = prepared perm (bfvContext rkg) g (cell w sk) \<and>
     (\<forall>i<Beta (bfvContext rkg). \<forall>l<length (Modulus (ContextKeys (bfvContext rkg))).
        \<forall>j<unat (ctxN (ContextKeys (bfvContext rkg))).
          cell w' (evakey ! i) ! l ! j < Modulus (ContextKeys (bfvContext rkg)) ! l \<and>
          (\<exists>x. cell w' (evakey ! i) ! l ! j = MFormC x (Modulus (ContextKeys (bfvContext rkg)) ! l) \<and>
             unat x =
               (unat (GaussianSampler (bfvContext rkg) (drawn w + i) ! l ! j)
                + (if i * Alpha (bfvContext rkg) \<le> l \<and>
                      l < i * Alpha (bfvContext rkg) + Alpha (bfvContext rkg)
                   then unat (cell w' (polypool rkg) ! l ! j) else 0)
                + (unat (Modulus (ContextKeys (bfvContext rkg)) ! l)
                   - (unat (cell w (crp ! i) ! l ! j) * unat (cell w sk ! l ! j)
                        * Rinv (unat (Modulus (ContextKeys (bfvContext rkg)) ! l)))
                     mod unat (Modulus (ContextKeys (bfvContext rkg)) ! l)))
               mod unat (Modulus (ContextKeys (bfvContext rkg)) ! l)))"
proof -
  let ?bc = "bfvContext rkg"
  let ?c = "ContextKeys ?bc"
  let ?B = "Beta ?bc"
  let ?A = "Alpha ?bc"
  let ?G = "GaussianSampler ?bc"
  let ?dl = "prepared perm ?bc g (cell w sk)"
  let ?ds = "map (\<lambda>k. digit ?bc ?dl (cell w sk) (cell w (crp ! k)) k (?G (drawn w + k))) [0..<?B]"
  let ?ev = "map (\<lambda>k. Suc (length (heap w)) + k) [0..<?B]"
  let ?w' = "w\<lparr>drawn := drawn w + ?B, heap := (heap w)[polypool rkg - 1 := ?dl] @ ?ds\<rparr>"
  have nz: "\<forall>n. shaped ?c (?G n)" using noise by simp
  have run: "rotShare perm rkg sk g crp w = Inr (?ev, ?w')"
    using rotShare_run [OF sk(1,2) pool sk(3) perm _ crp(2) nz range, of g] crp(1) by simp
  have shd: "shaped ?c ?dl" using sk(2) perm by (rule shaped_prepared)
  have q0: "\<forall>q \<in> set (Modulus ?c). 0 < q" using bound by simp
  have red: "reduced ?c ?dl" using sk(2) perm q0 by (rule prepared_reduced)
  have cp: "cell ?w' (polypool rkg) = ?dl" using pool(1) by (rule cell_final_pool)
  have main: "cell ?w' (?ev ! i) ! l ! j < Modulus ?c ! l \<and>
          (\<exists>x. cell ?w' (?ev ! i) ! l ! j = MFormC x (Modulus ?c ! l) \<and>
             unat x =
               (unat (?G (drawn w + i) ! l ! j)
                + (if i * ?A \<le> l \<and> l < i * ?A + ?A then unat (cell ?w' (polypool rkg) ! l ! j) else 0)
                + (unat (Modulus ?c ! l)
                   - (unat (cell w (crp ! i) ! l ! j) * unat (cell w sk ! l ! j)
                        * Rinv (unat (Modulus ?c ! l))) mod unat (Modulus ?c ! l)))
               mod unat (Modulus ?c ! l))"
    if i: "i < ?B" and l: "l < length (Modulus ?c)" and j: "j < unat (ctxN ?c)" for i l j
  proof -
    let ?q = "Modulus ?c ! l"
    let ?e = "?G (drawn w + i) ! l ! j"
    let ?p = "?dl ! l ! j"
    let ?cov = "i * ?A \<le> l \<and> l < i * ?A + ?A \<and>
            (length (Modulus (ContextQ ?bc)) < i * ?A \<or> l \<le> length (Modulus (ContextQ ?bc)))"
    let ?blk = "i * ?A \<le> l \<and> l < i * ?A + ?A"
    let ?x = "MulSubC (cell w (crp ! i) ! l ! j) (cell w sk ! l ! j)
                (if ?cov then CRed (?e + ?p) ?q else ?e) ?q"
    have qin: "?q \<in> set (Modulus ?c)" using l by simp
    then have qb: "0 < ?q" "unat ?q < 2 ^ 63" using bound by simp_all
    have rng: "i * ?A + ?A \<le> length (Modulus ?c)"
    proof -
      have "Suc i * ?A \<le> ?B * ?A" using i by (intro mult_le_mono1) simp
      then show ?thesis using range by simp
    qed
    have cv: "cell ?w' (?ev ! i) = digit ?bc ?dl (cell w sk) (cell w (crp ! i)) i (?G (drawn w + i))"
      using i by (simp add: cell_final_new)
    have shc: "shaped ?c (cell w (crp ! i))" using crp(2) i by simp
    have she: "shaped ?c (?G (drawn w + i))" using noise by simp
    have dc: "cell ?w' (?ev ! i) ! l ! j = MFormC ?x ?q"
      unfolding cv by (rule digit_coeff [OF shd sk(2) shc she rng l j])
    have e: "?e < ?q"
    proof (rule reduced_coeff)
      show "reduced ?c (?G (drawn w + i))" using noise by simp
      show "j < length (?G (drawn w + i) ! l)" using shaped_nth [OF she l] j by simp
    qed (rule l)
    have p: "?p < ?q"
    proof (rule reduced_coeff)
      show "reduced ?c ?dl" by (rule red)
      show "j < length (?dl ! l)" using shaped_nth [OF shd l] j by simp
    qed (rule l)
    have z: "?p = 0" if "\<not> ?cov" "?blk"
    proof -
      have "length (Modulus (ContextQ ?bc)) \<le> l" using that by auto
      then show ?thesis using prepared_zero [OF sk(2) perm ctx _ l j] by simp
    qed
    have ux: "unat ?x = (unat ?e + (if ?blk then unat ?p else 0)
            + (unat ?q - (unat (cell w (crp ! i) ! l ! j) * unat (cell w sk ! l ! j)
                 * Rinv (unat ?q)) mod unat ?q)) mod unat ?q"
      by (rule digit_arith [OF e p qb(2)]) (use z in auto)
    have "MFormC ?x ?q < ?q" using qb(1) by (rule unat_MFormC(2))
    then show ?thesis unfolding dc cp using ux by blast
  qed
  show ?thesis
    apply (rule exI [of _ ?ev])
    apply (rule exI [of _ ?w'])
    using run cp main by simp
qed

subsection \<open>The loops of aggregation\<close>

lemma shaped_accumulate:
  "shaped c acc \<Longrightarrow> \<forall>x \<in> set xs. shaped c x \<Longrightarrow> shaped c (accumulate c j acc xs)"
  by (induction xs arbitrary: j acc) simp_all

lemma aggLoop_run:
  assumes "valid w b" "shaped c (cell w b)" "j \<le> length samples"
    and "\<forall>k<length samples. j \<le> k \<longrightarrow> i < length (samples ! k) \<and> valid w (samples ! k ! i) \<and>
           samples ! k ! i \<noteq> b \<and> shaped c (cell w (samples ! k ! i))"
  shows "aggLoop c b samples i j w =
     Inr (store b (accumulate c j (cell w b) (map (\<lambda>s. cell w (s ! i)) (drop j samples))) w)"
  using assms
proof (induction c b samples i j w rule: aggLoop.induct)
  case (1 c b samples i j w)
  show ?case
  proof (cases "j < length samples")
    case False
    then show ?thesis by (subst aggLoop.simps) (simp add: store_cell_id)
  next
    case True
    let ?x = "cell w (samples ! j ! i)"
    let ?v1 = "rows2 AddNoModC c (cell w b) ?x"
    let ?w1 = "store b ?v1 w"
    let ?v2 = "if j mod 8 = 7 then rows1 ReduceC c ?v1 else ?v1"
    let ?w2 = "store b ?v2 w"
    have sj: "i < length (samples ! j)" "valid w (samples ! j ! i)" "samples ! j ! i \<noteq> b"
        "shaped c ?x"
      using "1.prems"(4) True by simp_all
    have add: "AddNoMod c b (samples ! j ! i) b w = Inr ?w1"
      using "1.prems"(1,2) sj by (simp add: AddNoMod_def op2_run)
    have red: "Reduce c b b ?w1 = Inr (store b (rows1 ReduceC c ?v1) w)"
      using "1.prems"(1,2) sj by (simp add: Reduce_def op1_run)
    have dr: "drop j samples = samples ! j # drop (Suc j) samples"
      using True by (simp add: Cons_nth_drop_Suc)
    have pre: "\<forall>k<length samples. Suc j \<le> k \<longrightarrow> i < length (samples ! k) \<and>
           valid ?w2 (samples ! k ! i) \<and> samples ! k ! i \<noteq> b \<and>
           shaped c (cell ?w2 (samples ! k ! i))"
      using "1.prems"(1,4) by simp
    have cells: "map (\<lambda>s. cell ?w2 (s ! i)) (drop (Suc j) samples)
        = map (\<lambda>s. cell w (s ! i)) (drop (Suc j) samples)"
    proof (rule map_cong [OF refl])
      fix s assume "s \<in> set (drop (Suc j) samples)"
      then obtain n where n: "n < length samples - Suc j" "s = samples ! (Suc j + n)"
        by (auto simp: in_set_conv_nth)
      define k where "k = Suc j + n"
      have "k < length samples" "Suc j \<le> k" "s = samples ! k"
        using n by (simp_all add: k_def)
      then show "cell ?w2 (s ! i) = cell w (s ! i)"
        using "1.prems"(1,4) by simp
    qed
    have shv: "shaped c ?v2" using "1.prems"(2) sj by simp
    have nl: "\<not> length (samples ! j) \<le> i" using sj(1) by simp
    have vb: "valid ?w2 b" using "1.prems"(1) by simp
    have cb: "cell ?w2 b = ?v2" using "1.prems"(1) by simp
    have shb: "shaped c (cell ?w2 b)" unfolding cb by (rule shv)
    have lj: "Suc j \<le> length samples" using True by simp
    have ih: "aggLoop c b samples i (Suc j) ?w2 =
        Inr (store b (accumulate c (Suc j) ?v2 (map (\<lambda>s. cell w (s ! i)) (drop (Suc j) samples))) w)"
    proof (cases "j mod 8 = 7")
      case m: True
      have w2: "?w2 = store b (rows1 ReduceC c ?v1) w" using m by simp
      have "aggLoop c b samples i (Suc j) ?w2 =
        Inr (store b (accumulate c (Suc j) (cell ?w2 b)
               (map (\<lambda>s. cell ?w2 (s ! i)) (drop (Suc j) samples))) ?w2)"
        using "1.IH"(1) [OF True nl add m red [folded w2] vb shb lj pre] .
      then show ?thesis unfolding cells cb by simp
    next
      case m: False
      have w2: "?w2 = ?w1" using m by simp
      have "aggLoop c b samples i (Suc j) ?w2 =
        Inr (store b (accumulate c (Suc j) (cell ?w2 b)
               (map (\<lambda>s. cell ?w2 (s ! i)) (drop (Suc j) samples))) ?w2)"
        using "1.IH"(2) [OF True nl add [folded w2] m vb shb lj pre] .
      then show ?thesis unfolding cells cb by simp
    qed
    have step: "aggLoop c b samples i j w = aggLoop c b samples i (Suc j) ?w2"
      by (subst aggLoop.simps) (use True nl add red in \<open>simp\<close>)
    show ?thesis unfolding step ih dr by simp
  qed
qed


lemma summed_unfold:
  assumes "ps \<noteq> []"
  shows "summed c ps =
     (if (length ps - 1) mod 8 \<noteq> 7 then rows1 ReduceC c (accumulate c 1 (hd ps) (tl ps))
      else accumulate c 1 (hd ps) (tl ps))"
  by (simp add: summed_def)

text \<open>One round of the loop over the digits of \<open>aggregate\<close>.\<close>

lemma recv_round:
  assumes ne: "samples \<noteq> []"
    and smp: "\<forall>k<length samples. i < length (samples ! k) \<and> valid w (samples ! k ! i) \<and>
           shaped c (cell w (samples ! k ! i))"
    and crp: "valid w ci" "shaped c (cell w ci)"
  shows "\<exists>w1 w2 w3 w4.
      CopyNew (samples ! 0 ! i) w = Inr (Suc (length (heap w)), w1) \<and>
      CopyNew ci w1 = Inr (Suc (Suc (length (heap w))), w2) \<and>
      MForm c (Suc (Suc (length (heap w)))) (Suc (Suc (length (heap w)))) w2 = Inr w3 \<and>
      aggLoop c (Suc (length (heap w))) samples i 1 w3 = Inr w4 \<and>
      (if (length samples - 1) mod 8 \<noteq> 7
       then Reduce c (Suc (length (heap w))) (Suc (length (heap w))) w4 else Inr w4)
        = Inr (w\<lparr>heap := heap w @ [summed c (map (\<lambda>s. cell w (s ! i)) samples),
                                     rows1 MFormC c (cell w ci)]\<rparr>)"
proof -
  let ?b = "Suc (length (heap w))"
  let ?a = "Suc (Suc (length (heap w)))"
  let ?s0 = "cell w (samples ! 0 ! i)"
  let ?A = "rows1 MFormC c (cell w ci)"
  let ?w1 = "w\<lparr>heap := heap w @ [?s0]\<rparr>"
  let ?w2 = "w\<lparr>heap := heap w @ [?s0, cell w ci]\<rparr>"
  let ?w3 = "w\<lparr>heap := heap w @ [?s0, ?A]\<rparr>"
  let ?acc = "accumulate c 1 ?s0 (map (\<lambda>s. cell w (s ! i)) (drop 1 samples))"
  let ?w4 = "w\<lparr>heap := heap w @ [?acc, ?A]\<rparr>"
  have l0: "0 < length samples" using ne by (cases samples) simp_all
  have s0: "valid w (samples ! 0 ! i)" "shaped c ?s0" using smp l0 by simp_all
  have 1: "CopyNew (samples ! 0 ! i) w = Inr (?b, ?w1)"
    using s0 by (simp add: CopyNew_def alloc_def)
  have 2: "CopyNew ci ?w1 = Inr (?a, ?w2)"
    using crp by (simp add: CopyNew_def alloc_def)
  have va: "valid ?w2 ?a" "cell ?w2 ?a = cell w ci"
    by (simp_all add: valid_def cell_def nth_append)
  have 3: "MForm c ?a ?a ?w2 = Inr ?w3"
    using va crp by (simp add: MForm_def op1_run) (simp add: store_def list_update_append)
  have vb: "valid ?w3 ?b" "cell ?w3 ?b = ?s0"
    by (simp_all add: valid_def cell_def nth_append)
  have old: "valid ?w3 p \<and> cell ?w3 p = cell w p \<and> p \<noteq> ?b" if "valid w p" for p
    using that by (cases p) (simp_all add: valid_def cell_def nth_append)
  have pre: "\<forall>k<length samples. 1 \<le> k \<longrightarrow> i < length (samples ! k) \<and> valid ?w3 (samples ! k ! i) \<and>
           samples ! k ! i \<noteq> ?b \<and> shaped c (cell ?w3 (samples ! k ! i))"
    using smp old by simp
  have cells: "map (\<lambda>s. cell ?w3 (s ! i)) (drop 1 samples) = map (\<lambda>s. cell w (s ! i)) (drop 1 samples)"
  proof (rule map_cong [OF refl])
    fix s assume "s \<in> set (drop 1 samples)"
    then have "s \<in> set samples" by (rule in_set_dropD)
    then obtain k where "k < length samples" "s = samples ! k"
      by (auto simp: in_set_conv_nth)
    then show "cell ?w3 (s ! i) = cell w (s ! i)" using smp old by simp
  qed
  have 4: "aggLoop c ?b samples i 1 ?w3 = Inr ?w4"
  proof -
    have sh: "shaped c (cell ?w3 ?b)" unfolding vb(2) by (rule s0(2))
    have le: "1 \<le> length samples" using ne by (cases samples) simp_all
    have "aggLoop c ?b samples i 1 ?w3 =
        Inr (store ?b (accumulate c 1 (cell ?w3 ?b)
               (map (\<lambda>s. cell ?w3 (s ! i)) (drop 1 samples))) ?w3)"
      by (rule aggLoop_run [OF vb(1) sh le pre])
    also have "\<dots> = Inr ?w4"
      unfolding cells vb(2) by (simp add: store_def list_update_append)
    finally show ?thesis .
  qed
  have sha: "shaped c ?acc"
    using s0 smp by (intro shaped_accumulate) (auto dest!: in_set_dropD simp: in_set_conv_nth)
  have vb4: "valid ?w4 ?b" "cell ?w4 ?b = ?acc"
    by (simp_all add: valid_def cell_def nth_append)
  have hd: "hd (map (\<lambda>s. cell w (s ! i)) samples) = ?s0"
    using ne by (simp add: hd_map hd_conv_nth)
  have tl: "tl (map (\<lambda>s. cell w (s ! i)) samples) = map (\<lambda>s. cell w (s ! i)) (drop 1 samples)"
    by (simp add: map_tl drop_Suc)
  have 5: "(if (length samples - 1) mod 8 \<noteq> 7 then Reduce c ?b ?b ?w4 else Inr ?w4)
        = Inr (w\<lparr>heap := heap w @ [summed c (map (\<lambda>s. cell w (s ! i)) samples), ?A]\<rparr>)"
    using vb4 sha ne
    by (simp add: Reduce_def op1_run summed_unfold hd tl del: drop_Suc_Cons)
      (simp add: store_def list_update_append)
  show ?thesis using 1 2 3 4 5 by blast
qed


lemma valid_grow2 [simp]: "valid w p \<Longrightarrow> valid (w\<lparr>heap := heap w @ xs\<rparr>) p"
  by (simp add: valid_def)

lemma cell_grow2 [simp]: "valid w p \<Longrightarrow> cell (w\<lparr>heap := heap w @ xs\<rparr>) p = cell w p"
  by (cases p) (simp_all add: valid_def cell_def nth_append)

lemma recvLoop_run:
  assumes ne: "samples \<noteq> []"
    and smp: "\<forall>k<length samples. \<forall>d<Beta (bfvContext rkg). d < length (samples ! k) \<and>
           valid w (samples ! k ! d) \<and>
           shaped (ContextKeys (bfvContext rkg)) (cell w (samples ! k ! d))"
    and crp: "Beta (bfvContext rkg) \<le> length crp"
      "\<forall>d<Beta (bfvContext rkg). valid w (crp ! d) \<and>
          shaped (ContextKeys (bfvContext rkg)) (cell w (crp ! d))"
    and len: "length receiver = Beta (bfvContext rkg)" "i \<le> Beta (bfvContext rkg)"
  shows "recvLoop rkg samples crp i receiver w =
     Inr (take i receiver @
            map (\<lambda>k. (Suc (length (heap w) + 2 * (k - i)), Suc (Suc (length (heap w) + 2 * (k - i)))))
              [i..<Beta (bfvContext rkg)],
          w\<lparr>heap := heap w @ concat (map (\<lambda>k.
                  [summed (ContextKeys (bfvContext rkg)) (map (\<lambda>s. cell w (s ! k)) samples),
                   rows1 MFormC (ContextKeys (bfvContext rkg)) (cell w (crp ! k))])
                [i..<Beta (bfvContext rkg)])\<rparr>)"
  using assms
proof (induction rkg samples crp i receiver w rule: recvLoop.induct)
  case (1 rkg samples crp i receiver w)
  let ?c = "ContextKeys (bfvContext rkg)"
  let ?B = "Beta (bfvContext rkg)"
  show ?case
  proof (cases "i < ?B")
    case False
    then have "i = ?B" using "1.prems" by simp
    then show ?thesis using "1.prems" by (subst recvLoop.simps) simp
  next
    case True
    let ?b = "Suc (length (heap w))"
    let ?a = "Suc (Suc (length (heap w)))"
    let ?S = "summed ?c (map (\<lambda>s. cell w (s ! i)) samples)"
    let ?A = "rows1 MFormC ?c (cell w (crp ! i))"
    let ?w5 = "w\<lparr>heap := heap w @ [?S, ?A]\<rparr>"
    have l0: "0 < length samples" using "1.prems"(1) by (cases samples) simp_all
    have smpi: "\<forall>k<length samples. i < length (samples ! k) \<and> valid w (samples ! k ! i) \<and>
           shaped ?c (cell w (samples ! k ! i))"
      using "1.prems"(2) True by simp
    have crpi: "valid w (crp ! i)" "shaped ?c (cell w (crp ! i))"
      using "1.prems"(4) True by simp_all
    obtain w1 w2 w3 w4 where r:
      "CopyNew (samples ! 0 ! i) w = Inr (?b, w1)"
      "CopyNew (crp ! i) w1 = Inr (?a, w2)"
      "MForm ?c ?a ?a w2 = Inr w3"
      "aggLoop ?c ?b samples i 1 w3 = Inr w4"
      "(if (length samples - 1) mod 8 \<noteq> 7 then Reduce ?c ?b ?b w4 else Inr w4) = Inr ?w5"
      using recv_round [OF "1.prems"(1) smpi crpi] by blast
    have n0: "\<not> length (samples ! 0) \<le> i" using smpi l0 by (simp add: not_le)
    have nc: "\<not> length crp \<le> i" using True "1.prems"(3) by simp
    have step: "recvLoop rkg samples crp i receiver w =
        recvLoop rkg samples crp (Suc i) (receiver[i := (?b, ?a)]) ?w5"
      by (subst recvLoop.simps) (use True "1.prems"(1) n0 nc r in simp)
    have pre2: "\<forall>k<length samples. \<forall>d<?B. d < length (samples ! k) \<and>
           valid ?w5 (samples ! k ! d) \<and> shaped ?c (cell ?w5 (samples ! k ! d))"
      using "1.prems"(2) by simp
    have pre4: "\<forall>d<?B. valid ?w5 (crp ! d) \<and> shaped ?c (cell ?w5 (crp ! d))"
      using "1.prems"(4) by simp
    have len2: "length (receiver[i := (?b, ?a)]) = ?B" "Suc i \<le> ?B"
      using "1.prems"(5) True by simp_all
    have ih: "recvLoop rkg samples crp (Suc i) (receiver[i := (?b, ?a)]) ?w5 =
       Inr (take (Suc i) (receiver[i := (?b, ?a)]) @
            map (\<lambda>k. (Suc (length (heap ?w5) + 2 * (k - Suc i)),
                       Suc (Suc (length (heap ?w5) + 2 * (k - Suc i))))) [Suc i..<?B],
          ?w5\<lparr>heap := heap ?w5 @ concat (map (\<lambda>k.
                  [summed ?c (map (\<lambda>s. cell ?w5 (s ! k)) samples),
                   rows1 MFormC ?c (cell ?w5 (crp ! k))]) [Suc i..<?B])\<rparr>)"
      by (rule "1.IH" [OF True "1.prems"(1) n0 r(1) _ nc r(2) _ r(3) r(4) r(5)
            "1.prems"(1) pre2 "1.prems"(3) pre4 len2]) simp_all
    have upt: "[i..<?B] = i # [Suc i..<?B]" using True by (rule upt_conv_Cons)
    have ev: "take (Suc i) (receiver[i := (?b, ?a)]) @
            map (\<lambda>k. (Suc (length (heap ?w5) + 2 * (k - Suc i)),
                       Suc (Suc (length (heap ?w5) + 2 * (k - Suc i))))) [Suc i..<?B]
        = take i receiver @
            map (\<lambda>k. (Suc (length (heap w) + 2 * (k - i)), Suc (Suc (length (heap w) + 2 * (k - i)))))
              [i..<?B]"
    proof -
      have "take (Suc i) (receiver[i := (?b, ?a)]) = take i receiver @ [(?b, ?a)]"
        using True "1.prems"(5) by (simp add: take_Suc_conv_app_nth)
      moreover have "map (\<lambda>k. (Suc (length (heap ?w5) + 2 * (k - Suc i)),
                       Suc (Suc (length (heap ?w5) + 2 * (k - Suc i))))) [Suc i..<?B]
          = map (\<lambda>k. (Suc (length (heap w) + 2 * (k - i)), Suc (Suc (length (heap w) + 2 * (k - i)))))
              [Suc i..<?B]"
        by (rule map_cong) auto
      ultimately show ?thesis unfolding upt by simp
    qed
    have hp: "heap ?w5 @ concat (map (\<lambda>k.
                  [summed ?c (map (\<lambda>s. cell ?w5 (s ! k)) samples),
                   rows1 MFormC ?c (cell ?w5 (crp ! k))]) [Suc i..<?B])
        = heap w @ concat (map (\<lambda>k.
                  [summed ?c (map (\<lambda>s. cell w (s ! k)) samples),
                   rows1 MFormC ?c (cell w (crp ! k))]) [i..<?B])"
    proof -
      have meq: "map (\<lambda>k. [summed ?c (map (\<lambda>s. cell ?w5 (s ! k)) samples),
                   rows1 MFormC ?c (cell ?w5 (crp ! k))]) [Suc i..<?B]
          = map (\<lambda>k. [summed ?c (map (\<lambda>s. cell w (s ! k)) samples),
                   rows1 MFormC ?c (cell w (crp ! k))]) [Suc i..<?B]"
      proof (rule map_cong [OF refl])
        fix k assume "k \<in> set [Suc i..<?B]"
        then have k: "k < ?B" by simp
        have c1: "cell ?w5 (crp ! k) = cell w (crp ! k)" using "1.prems"(4) k by simp
        have c2: "map (\<lambda>s. cell ?w5 (s ! k)) samples = map (\<lambda>s. cell w (s ! k)) samples"
        proof (rule map_cong [OF refl])
          fix s assume "s \<in> set samples"
          then obtain n where "n < length samples" "s = samples ! n"
            by (auto simp: in_set_conv_nth)
          then show "cell ?w5 (s ! k) = cell w (s ! k)" using "1.prems"(2) k by simp
        qed
        show "[summed ?c (map (\<lambda>s. cell ?w5 (s ! k)) samples), rows1 MFormC ?c (cell ?w5 (crp ! k))]
            = [summed ?c (map (\<lambda>s. cell w (s ! k)) samples), rows1 MFormC ?c (cell w (crp ! k))]"
          by (simp only: c1 c2)
      qed
      show ?thesis unfolding upt by (simp add: meq)
    qed
    show ?thesis unfolding step ih ev hp by simp
  qed
qed

lemma aggregate_run:
  assumes ne: "samples \<noteq> []"
    and smp: "\<forall>k<length samples. \<forall>d<Beta (bfvContext rkg). d < length (samples ! k) \<and>
           valid w (samples ! k ! d) \<and>
           shaped (ContextKeys (bfvContext rkg)) (cell w (samples ! k ! d))"
    and crp: "Beta (bfvContext rkg) \<le> length crp"
      "\<forall>d<Beta (bfvContext rkg). valid w (crp ! d) \<and>
          shaped (ContextKeys (bfvContext rkg)) (cell w (crp ! d))"
  shows "aggregate rkg samples crp w =
     Inr (map (\<lambda>k. (Suc (length (heap w) + 2 * k), Suc (Suc (length (heap w) + 2 * k))))
              [0..<Beta (bfvContext rkg)],
          w\<lparr>heap := heap w @ concat (map (\<lambda>k.
                  [summed (ContextKeys (bfvContext rkg)) (map (\<lambda>s. cell w (s ! k)) samples),
                   rows1 MFormC (ContextKeys (bfvContext rkg)) (cell w (crp ! k))])
                [0..<Beta (bfvContext rkg)])\<rparr>)"
  unfolding aggregate_def
  using recvLoop_run [OF assms, of "replicate (Beta (bfvContext rkg)) (nil, nil)" 0]
  by simp

subsection \<open>Deferred reduction\<close>

lemma accumulate_coeff:
  assumes "l < length (Modulus c)" "k < unat (ctxN c)"
  shows "shaped c acc \<Longrightarrow> \<forall>x \<in> set xs. shaped c x \<Longrightarrow>
     accumulate c j acc xs ! l ! k = accC (Modulus c ! l) j (acc ! l ! k) (map (\<lambda>x. x ! l ! k) xs)"
proof (induction xs arbitrary: j acc)
  case Nil
  then show ?case by simp
next
  case (Cons x xs)
  let ?a1 = "rows2 AddNoModC c acc x"
  let ?a2 = "if j mod 8 = 7 then rows1 ReduceC c ?a1 else ?a1"
  have sh: "shaped c ?a1" "shaped c ?a2" using Cons.prems by simp_all
  have "accumulate c (Suc j) ?a2 xs ! l ! k
      = accC (Modulus c ! l) (Suc j) (?a2 ! l ! k) (map (\<lambda>x. x ! l ! k) xs)"
    using Cons.prems by (intro Cons.IH sh) simp
  moreover have "?a2 ! l ! k = (if j mod 8 = 7
       then ReduceC (AddNoModC (acc ! l ! k) (x ! l ! k) (Modulus c ! l)) (Modulus c ! l)
       else AddNoModC (acc ! l ! k) (x ! l ! k) (Modulus c ! l))"
    using Cons.prems assms sh by (simp add: rows1_coeff rows2_coeff)
  ultimately show ?case by simp
qed

lemma accC_invariant:
  assumes q: "9 * unat q \<le> 2 ^ 64"
  shows "\<forall>x \<in> set xs. x < q \<Longrightarrow> unat a < (1 + j mod 8) * unat q \<Longrightarrow>
     unat (accC q j a xs) < (1 + (j + length xs) mod 8) * unat q \<and>
     unat (accC q j a xs) mod unat q = (unat a + sum_list (map unat xs)) mod unat q"
proof (induction xs arbitrary: j a)
  case Nil
  then show ?case by simp
next
  case (Cons x xs)
  let ?r = "j mod 8"
  have r: "?r \<le> 7" by simp
  have x: "unat x < unat q" using Cons.prems(1) by (simp add: word_less_nat_alt)
  have "unat a + unat x < (2 + ?r) * unat q" using Cons.prems(2) x by (simp add: algebra_simps)
  also have "\<dots> \<le> 9 * unat q" using r by (intro mult_le_mono1) simp
  finally have lt: "unat a + unat x < 2 ^ 64" using q by simp
  have s: "unat (a + x) = unat a + unat x"
    using lt by (simp add: unat_add_lem [THEN iffD1])
  let ?a2 = "if ?r = 7 then ReduceC (AddNoModC a x q) q else AddNoModC a x q"
  have q0: "0 < unat q" using x by simp
  have b2: "unat ?a2 < (1 + Suc j mod 8) * unat q"
  proof (cases "?r = 7")
    case True
    then have "Suc j mod 8 = 0" by (simp add: mod_Suc)
    moreover have "unat (ReduceC (AddNoModC a x q) q) < unat q"
      using q0 by (simp add: ReduceC_def AddNoModC_def unat_mod)
    ultimately show ?thesis using True by simp
  next
    case False
    then have "Suc j mod 8 = Suc ?r" by (simp add: mod_Suc)
    moreover have "unat (AddNoModC a x q) < (2 + ?r) * unat q"
      using Cons.prems(2) x s by (simp add: AddNoModC_def algebra_simps)
    ultimately show ?thesis using False by simp
  qed
  have m2: "unat ?a2 mod unat q = (unat a + unat x) mod unat q"
    using s by (simp add: ReduceC_def AddNoModC_def unat_mod)
  have ih: "unat (accC q (Suc j) ?a2 xs) < (1 + (Suc j + length xs) mod 8) * unat q \<and>
     unat (accC q (Suc j) ?a2 xs) mod unat q = (unat ?a2 + sum_list (map unat xs)) mod unat q"
    using Cons.prems(1) b2 by (intro Cons.IH) simp_all
  have "(unat ?a2 + sum_list (map unat xs)) mod unat q
      = (unat ?a2 mod unat q + sum_list (map unat xs)) mod unat q"
    by (simp add: mod_add_left_eq)
  also have "\<dots> = (unat a + unat x + sum_list (map unat xs)) mod unat q"
    unfolding m2 by (simp add: mod_add_left_eq)
  finally have "(unat ?a2 + sum_list (map unat xs)) mod unat q
      = (unat a + sum_list (map unat (x # xs))) mod unat q"
    by (simp add: add.assoc)
  then show ?case using ih by simp
qed


lemma reduced_shaped_coeff:
  assumes "shaped c p" "reduced c p" "l < length (Modulus c)" "k < unat (ctxN c)"
  shows "p ! l ! k < Modulus c ! l"
proof (rule reduced_coeff)
  show "k < length (p ! l)" using shaped_nth [OF assms(1,3)] assms(4) by simp
qed (rule assms)+

lemma summed_coeff:
  assumes ne: "ps \<noteq> []" and sh: "\<forall>p \<in> set ps. shaped c p \<and> reduced c p"
    and q: "9 * unat (Modulus c ! l) \<le> 2 ^ 64"
    and l: "l < length (Modulus c)" and k: "k < unat (ctxN c)"
  shows "unat (summed c ps ! l ! k)
           = sum_list (map (\<lambda>p. unat (p ! l ! k)) ps) mod unat (Modulus c ! l)"
proof -
  let ?q = "Modulus c ! l"
  obtain p0 rest where ps: "ps = p0 # rest" using ne by (cases ps) auto
  let ?xs = "map (\<lambda>x. x ! l ! k) rest"
  let ?acc = "accC ?q 1 (p0 ! l ! k) ?xs"
  have red: "p ! l ! k < ?q" if "p \<in> set ps" for p
    using sh that l k by (intro reduced_shaped_coeff) simp_all
  have p0: "unat (p0 ! l ! k) < unat ?q" using red [of p0] ps by (simp add: word_less_nat_alt)
  have xs: "\<forall>x \<in> set ?xs. x < ?q" using red ps by auto
  have inv: "unat ?acc < (1 + (1 + length ?xs) mod 8) * unat ?q \<and>
     unat ?acc mod unat ?q = (unat (p0 ! l ! k) + sum_list (map unat ?xs)) mod unat ?q"
    using p0 by (intro accC_invariant [OF q xs]) simp
  have tot: "unat (p0 ! l ! k) + sum_list (map unat ?xs) = sum_list (map (\<lambda>p. unat (p ! l ! k)) ps)"
    unfolding ps by (simp add: comp_def)
  have acc: "accumulate c 1 p0 rest ! l ! k = ?acc"
    using sh ps by (intro accumulate_coeff [OF l k]) simp_all
  have sha: "shaped c (accumulate c 1 p0 rest)"
    using sh ps by (intro shaped_accumulate) simp_all
  show ?thesis
  proof (cases "(length ps - 1) mod 8 \<noteq> 7")
    case True
    then have "summed c ps ! l ! k = ReduceC ?acc ?q"
      using sha l k acc by (simp add: summed_def ps rows1_coeff)
    then show ?thesis using inv tot by (simp add: ReduceC_def unat_mod)
  next
    case False
    then have n: "length rest mod 8 = 7" by (simp add: ps)
    then have "(1 + length ?xs) mod 8 = 0" by (simp add: mod_Suc)
    then have "unat ?acc < unat ?q" using inv by simp
    then have "unat ?acc = unat ?acc mod unat ?q" by simp
    moreover have "summed c ps ! l ! k = ?acc"
      using False acc by (simp add: summed_def ps)
    ultimately show ?thesis using inv tot by simp
  qed
qed

lemma naive_fold_coeff:
  assumes l: "l < length (Modulus c)" and k: "k < unat (ctxN c)"
  shows "shaped c acc \<Longrightarrow> \<forall>x \<in> set xs. shaped c x \<Longrightarrow>
     foldl (rows2 AddModC c) acc xs ! l ! k
       = foldl (\<lambda>a x. AddModC a x (Modulus c ! l)) (acc ! l ! k) (map (\<lambda>x. x ! l ! k) xs)"
proof (induction xs arbitrary: acc)
  case Nil
  then show ?case by simp
next
  case (Cons x xs)
  have "shaped c (rows2 AddModC c acc x)" using Cons.prems by simp
  then show ?case using Cons.IH Cons.prems l k by (simp add: rows2_coeff)
qed

lemma naive_fold_value:
  assumes q: "2 * unat q \<le> 2 ^ 64"
  shows "\<forall>x \<in> set xs. x < q \<Longrightarrow> a < q \<Longrightarrow>
     unat (foldl (\<lambda>a x. AddModC a x q) a xs) = (unat a + sum_list (map unat xs)) mod unat q"
proof (induction xs arbitrary: a)
  case Nil
  then show ?case by (simp add: word_less_nat_alt)
next
  case (Cons x xs)
  have a: "unat a < unat q" and x: "unat x < unat q"
    using Cons.prems by (simp_all add: word_less_nat_alt)
  then have "unat a + unat x < 2 ^ 64" using q by simp
  then have s: "unat (a + x) = unat a + unat x" by (simp add: unat_add_lem [THEN iffD1])
  have u: "unat (AddModC a x q) = (unat a + unat x) mod unat q"
    using s by (simp add: AddModC_def ReduceC_def AddNoModC_def unat_mod)
  then have lt: "AddModC a x q < q" using a by (simp add: word_less_nat_alt)
  have "unat (foldl (\<lambda>a x. AddModC a x q) (AddModC a x q) xs)
      = (unat (AddModC a x q) + sum_list (map unat xs)) mod unat q"
    using Cons.prems(1) lt by (intro Cons.IH) simp_all
  also have "\<dots> = (unat a + unat x + sum_list (map unat xs)) mod unat q"
    unfolding u by (simp add: mod_add_left_eq)
  finally show ?case by (simp add: add.assoc)
qed

lemma shaped_naive_fold:
  "shaped c acc \<Longrightarrow> \<forall>x \<in> set xs. shaped c x \<Longrightarrow> shaped c (foldl (rows2 AddModC c) acc xs)"
  by (induction xs arbitrary: acc) simp_all

lemma naive_sum_coeff:
  assumes ne: "ps \<noteq> []" and sh: "\<forall>p \<in> set ps. shaped c p \<and> reduced c p"
    and q: "2 * unat (Modulus c ! l) \<le> 2 ^ 64"
    and l: "l < length (Modulus c)" and k: "k < unat (ctxN c)"
  shows "unat (naive_sum c ps ! l ! k)
           = sum_list (map (\<lambda>p. unat (p ! l ! k)) ps) mod unat (Modulus c ! l)"
proof -
  let ?q = "Modulus c ! l"
  obtain p0 rest where ps: "ps = p0 # rest" using ne by (cases ps) auto
  let ?xs = "map (\<lambda>x. x ! l ! k) rest"
  have red: "p ! l ! k < ?q" if "p \<in> set ps" for p
    using sh that l k by (intro reduced_shaped_coeff) simp_all
  have p0: "p0 ! l ! k < ?q" using red [of p0] ps by simp
  then have "unat (ReduceC (p0 ! l ! k) ?q) = unat (p0 ! l ! k)"
    by (simp add: ReduceC_def unat_mod word_less_nat_alt)
  then have r0: "ReduceC (p0 ! l ! k) ?q = p0 ! l ! k"
    by (rule unsigned_word_eqI)
  have xs: "\<forall>x \<in> set ?xs. x < ?q" using red ps by auto
  have sh0: "shaped c (rows1 ReduceC c p0)" using sh ps by simp
  have "naive_sum c ps ! l ! k
      = foldl (\<lambda>a x. AddModC a x ?q) (rows1 ReduceC c p0 ! l ! k) ?xs"
    unfolding naive_sum_def ps using sh ps by (simp add: naive_fold_coeff [OF l k sh0])
  also have "rows1 ReduceC c p0 ! l ! k = p0 ! l ! k"
    using sh ps l k r0 by (simp add: rows1_coeff)
  finally have "unat (naive_sum c ps ! l ! k)
      = (unat (p0 ! l ! k) + sum_list (map unat ?xs)) mod unat ?q"
    using naive_fold_value [OF q xs p0] by simp
  then show ?thesis unfolding ps by (simp add: comp_def)
qed

lemma shaped_summed:
  assumes "ps \<noteq> []" "\<forall>p \<in> set ps. shaped c p"
  shows "shaped c (summed c ps)"
proof -
  obtain p0 rest where ps: "ps = p0 # rest" using assms(1) by (cases ps) auto
  have "shaped c (accumulate c 1 p0 rest)"
    using assms(2) ps by (intro shaped_accumulate) simp_all
  then show ?thesis by (simp add: summed_def ps)
qed

lemma shaped_naive_sum:
  assumes "ps \<noteq> []" "\<forall>p \<in> set ps. shaped c p"
  shows "shaped c (naive_sum c ps)"
proof -
  obtain p0 rest where ps: "ps = p0 # rest" using assms(1) by (cases ps) auto
  show ?thesis unfolding naive_sum_def ps using assms(2) ps
    by (intro shaped_naive_fold) simp_all
qed

text \<open>The deferred reduction computes the sum that reduces after every addition.\<close>

lemma summed_is_naive_sum:
  assumes ne: "ps \<noteq> []" and sh: "\<forall>p \<in> set ps. shaped c p \<and> reduced c p"
    and q: "\<forall>q \<in> set (Modulus c). 9 * unat q \<le> 2 ^ 64"
  shows "summed c ps = naive_sum c ps"
proof (rule shaped_eqI)
  show "shaped c (summed c ps)" using ne sh by (intro shaped_summed) simp_all
  show "shaped c (naive_sum c ps)" using ne sh by (intro shaped_naive_sum) simp_all
next
  fix l k assume l: "l < length (Modulus c)" and k: "k < unat (ctxN c)"
  have q9: "9 * unat (Modulus c ! l) \<le> 2 ^ 64" using q l by simp
  then have q2: "2 * unat (Modulus c ! l) \<le> 2 ^ 64" by simp
  have "unat (summed c ps ! l ! k) = unat (naive_sum c ps ! l ! k)"
    unfolding summed_coeff [OF ne sh q9 l k] naive_sum_coeff [OF ne sh q2 l k] ..
  then show "summed c ps ! l ! k = naive_sum c ps ! l ! k"
    by (rule unsigned_word_eqI)
qed

lemma summed_reduced:
  assumes ne: "ps \<noteq> []" and sh: "\<forall>p \<in> set ps. shaped c p \<and> reduced c p"
    and q: "\<forall>q \<in> set (Modulus c). 9 * unat q \<le> 2 ^ 64"
  shows "reduced c (summed c ps)"
proof (rule reducedI)
  show "shaped c (summed c ps)" using ne sh by (intro shaped_summed) simp_all
next
  fix l k assume l: "l < length (Modulus c)" and k: "k < unat (ctxN c)"
  have q9: "9 * unat (Modulus c ! l) \<le> 2 ^ 64" using q l by simp
  obtain p0 where "p0 \<in> set ps" using ne by (cases ps) auto
  then have "p0 ! l ! k < Modulus c ! l"
    using sh l k by (intro reduced_shaped_coeff) simp_all
  then have "0 < unat (Modulus c ! l)" by (simp add: word_less_nat_alt)
  then show "summed c ps ! l ! k < Modulus c ! l"
    unfolding word_less_nat_alt summed_coeff [OF ne sh q9 l k] by simp
qed

subsection \<open>Aggregated keys\<close>

lemma concat_pairs_length [simp]:
  "length (concat (map (\<lambda>k. [g k, h k]) [0..<n])) = 2 * n"
  by (induction n) simp_all

lemma concat_pairs_nth:
  assumes "i < n"
  shows "concat (map (\<lambda>k. [g k, h k]) [0..<n]) ! (2 * i) = g i"
    and "concat (map (\<lambda>k. [g k, h k]) [0..<n]) ! Suc (2 * i) = h i"
  using assms
proof (induction n)
  case 0
  {
    case 1 then show ?case by simp
  next
    case 2 then show ?case by simp
  }
next
  case (Suc n)
  {
    case 1
    show ?case
    proof (cases "i < n")
      case True
      then show ?thesis using Suc.IH(1) by (simp add: nth_append)
    next
      case False
      then have "i = n" using 1 by simp
      then show ?thesis by (simp add: nth_append)
    qed
  next
    case 2
    show ?case
    proof (cases "i < n")
      case True
      then show ?thesis using Suc.IH(2) by (simp add: nth_append)
    next
      case False
      then have "i = n" using 2 by simp
      then show ?thesis by (simp add: nth_append)
    qed
  }
qed

lemma cell_appended:
  "cell (w\<lparr>heap := heap w @ xs\<rparr>) (Suc (length (heap w) + n)) = xs ! n"
  by (simp add: cell_def nth_append)

lemma cell_appended_Suc:
  "cell (w\<lparr>heap := heap w @ xs\<rparr>) (Suc (Suc (length (heap w) + n))) = xs ! Suc n"
  by (simp add: cell_def nth_append)

lemma valid_appended:
  "valid (w\<lparr>heap := heap w @ xs\<rparr>) p \<longleftrightarrow> 0 < p \<and> p \<le> length (heap w) + length xs"
  by (simp add: valid_def)


lemma all_less_2: "(\<forall>i<2. P i) \<longleftrightarrow> P 0 \<and> P (Suc 0)"
  by (auto simp: less_2_cases_iff)

text \<open>
  For a non-empty list of share vectors and a common random polynomial, all of length
  \<open>Beta\<close>, of polynomials of the context's shape, the shares with reduced coefficients, and
  primes \<open>q\<close> with \<open>9 q \<le> 2^64\<close>, \<open>aggregate\<close> returns \<open>Beta\<close> pairs \<open>(b, a)\<close>: \<open>b[i]\<close> is
  the sum of the parties' digit \<open>i\<close> that reduces after every addition, it is fully reduced,
  each coefficient being the sum of the parties' coefficients modulo the prime of its row,
  and \<open>a[i]\<close> is \<open>crp[i]\<close> in fast-multiplication representation. The reduction after every
  8 additions keeps the accumulator below \<open>9 q\<close>, so no addition wraps around.
\<close>

lemma aggregate_sums:
  assumes ne: "samples \<noteq> []"
    and smp: "\<forall>k<length samples. length (samples ! k) = Beta (bfvContext rkg) \<and>
         (\<forall>d<Beta (bfvContext rkg). valid w (samples ! k ! d) \<and>
             shaped (ContextKeys (bfvContext rkg)) (cell w (samples ! k ! d)) \<and>
             reduced (ContextKeys (bfvContext rkg)) (cell w (samples ! k ! d)))"
    and crp: "length crp = Beta (bfvContext rkg)"
      "\<forall>d<Beta (bfvContext rkg). valid w (crp ! d) \<and>
          shaped (ContextKeys (bfvContext rkg)) (cell w (crp ! d))"
    and q: "\<forall>q \<in> set (Modulus (ContextKeys (bfvContext rkg))). 9 * unat q \<le> 2 ^ 64"
  shows "\<exists>receiver w'. aggregate rkg samples crp w = Inr (receiver, w') \<and>
     length receiver = Beta (bfvContext rkg) \<and>
     (\<forall>i<Beta (bfvContext rkg).
        cell w' (fst (receiver ! i))
          = naive_sum (ContextKeys (bfvContext rkg)) (map (\<lambda>s. cell w (s ! i)) samples) \<and>
        reduced (ContextKeys (bfvContext rkg)) (cell w' (fst (receiver ! i))) \<and>
        (\<forall>l<length (Modulus (ContextKeys (bfvContext rkg))).
           \<forall>j<unat (ctxN (ContextKeys (bfvContext rkg))).
             unat (cell w' (fst (receiver ! i)) ! l ! j)
               = sum_list (map (\<lambda>s. unat (cell w (s ! i) ! l ! j)) samples)
                   mod unat (Modulus (ContextKeys (bfvContext rkg)) ! l)) \<and>
        cell w' (snd (receiver ! i))
          = rows1 MFormC (ContextKeys (bfvContext rkg)) (cell w (crp ! i)))"
proof -
  let ?c = "ContextKeys (bfvContext rkg)"
  let ?B = "Beta (bfvContext rkg)"
  let ?S = "\<lambda>k. summed ?c (map (\<lambda>s. cell w (s ! k)) samples)"
  let ?A = "\<lambda>k. rows1 MFormC ?c (cell w (crp ! k))"
  let ?recv = "map (\<lambda>k. (Suc (length (heap w) + 2 * k), Suc (Suc (length (heap w) + 2 * k)))) [0..<?B]"
  let ?w' = "w\<lparr>heap := heap w @ concat (map (\<lambda>k. [?S k, ?A k]) [0..<?B])\<rparr>"
  have smp': "\<forall>k<length samples. \<forall>d<?B. d < length (samples ! k) \<and>
           valid w (samples ! k ! d) \<and> shaped ?c (cell w (samples ! k ! d))"
    using smp by simp
  have run: "aggregate rkg samples crp w = Inr (?recv, ?w')"
    using aggregate_run [OF ne smp' _ crp(2)] crp(1) by simp
  have digit: "cell ?w' (fst (?recv ! i)) = naive_sum ?c (map (\<lambda>s. cell w (s ! i)) samples) \<and>
        reduced ?c (cell ?w' (fst (?recv ! i))) \<and>
        (\<forall>l<length (Modulus ?c). \<forall>j<unat (ctxN ?c).
             unat (cell ?w' (fst (?recv ! i)) ! l ! j)
               = sum_list (map (\<lambda>s. unat (cell w (s ! i) ! l ! j)) samples)
                   mod unat (Modulus ?c ! l)) \<and>
        cell ?w' (snd (?recv ! i)) = ?A i"
    if i: "i < ?B" for i
  proof -
    let ?ps = "map (\<lambda>s. cell w (s ! i)) samples"
    have pne: "?ps \<noteq> []" using ne by simp
    have psh: "\<forall>p \<in> set ?ps. shaped ?c p \<and> reduced ?c p"
      using smp i by (auto simp: in_set_conv_nth)
    have b: "cell ?w' (fst (?recv ! i)) = ?S i"
      using i by (simp add: cell_appended concat_pairs_nth(1))
    have a: "cell ?w' (snd (?recv ! i)) = ?A i"
      using i by (simp add: cell_appended_Suc concat_pairs_nth(2))
    have q9: "9 * unat (Modulus ?c ! l) \<le> 2 ^ 64" if "l < length (Modulus ?c)" for l
      using q that by simp
    have sums: "unat (?S i ! l ! j)
               = sum_list (map (\<lambda>s. unat (cell w (s ! i) ! l ! j)) samples) mod unat (Modulus ?c ! l)"
      if "l < length (Modulus ?c)" "j < unat (ctxN ?c)" for l j
      using summed_coeff [OF pne psh q9 [OF that(1)] that] by (simp add: comp_def)
    show ?thesis
      unfolding b a
      using summed_is_naive_sum [OF pne psh q] summed_reduced [OF pne psh q] sums by simp
  qed
  have len: "length ?recv = ?B" by simp
  have all: "\<forall>i<?B.
        cell ?w' (fst (?recv ! i)) = naive_sum ?c (map (\<lambda>s. cell w (s ! i)) samples) \<and>
        reduced ?c (cell ?w' (fst (?recv ! i))) \<and>
        (\<forall>l<length (Modulus ?c). \<forall>j<unat (ctxN ?c).
             unat (cell ?w' (fst (?recv ! i)) ! l ! j)
               = sum_list (map (\<lambda>s. unat (cell w (s ! i) ! l ! j)) samples)
                   mod unat (Modulus ?c ! l)) \<and>
        cell ?w' (snd (?recv ! i)) = ?A i"
    using digit by blast
  show ?thesis
    using run len all by blast
qed

subsection \<open>The small instance\<close>

lemma small_context:
  "bfvContext small_rkg = small_bc" "ContextKeys small_bc = small_keys" "Beta small_bc = 2"
  "Alpha small_bc = 2" "polypool small_rkg = 1" "ContextQ small_bc = small_Q"
  "KeySwitchPrimes small_bc = [193, 241]" "GaussianSampler small_bc = small_noise"
  "bfvN small_bc = 8" "ctxN small_keys = 8" "Modulus small_keys = [17, 97, 113, 193, 241]"
  "Modulus small_Q = [17, 97, 113]"
  "galElRotColLeft small_rkg = [1, 5, 9, 13]" "galElRotColRight small_rkg = [1, 13, 9, 5]"
  "galElRotRow small_rkg = 15"
  by (simp_all add: small_rkg_def small_bc_def small_keys_def small_Q_def)

lemma small_shapes:
  "\<forall>p \<in> {1, 2, 3, 4, 5, 6, 7, 8}. valid small_world p \<and> shaped small_keys (cell small_world p) \<and>
      reduced small_keys (cell small_world p)"
  by (simp add: small_world_def small_keys_def valid_def shaped_def reduced_def cell_def)

lemma small_noise_ok:
  "shaped small_keys (small_noise n) \<and> reduced small_keys (small_noise n)"
  by (simp add: small_noise_def small_keys_def shaped_def reduced_def)

lemma small_perm_ok: "shaped small_keys a \<longrightarrow> shaped small_keys (small_perm g a)"
  by (simp add: small_perm_def shaped_def small_keys_def)

lemma small_rkg_constructed:
  "NewRKG small_bc \<lparr>heap = [], drawn = 0\<rparr>
     = Inr (small_rkg, \<lparr>heap = [NewPoly small_keys], drawn = 0\<rparr>)"
  by (simp add: NewRKG_def alloc_def Let_def small_context ModExp_def genTables.simps
        small_rkg_def) (simp add: eval_nat_numeral)

lemma small_perm_9: "small_perm 9 [[a0, a1, a2, a3, a4, a5, a6, a7]] = [[a1, a0, a3, a2, a5, a4, a7, a6]]"
  by (simp add: small_perm_def small_slot_def bitrev3_def)

lemma small_perm_1: "small_perm 1 [[a0, a1, a2, a3, a4, a5, a6, a7]] = [[a0, a1, a2, a3, a4, a5, a6, a7]]"
  by (simp add: small_perm_def small_slot_def bitrev3_def)

subsection \<open>A digit determines its noise\<close>

lemma add_mod_inj:
  fixes x y t q :: nat
  assumes "x < q" "y < q" "(x + t) mod q = (y + t) mod q"
  shows "x = y"
proof -
  have aux: "a = b" if "a \<le> b" "a < q" "b < q" "(a + t) mod q = (b + t) mod q" for a b
  proof -
    have "a + t \<le> b + t" using that(1) by simp
    from mod_eq_dvd_iff_nat [OF this, of q] have "q dvd (b + t) - (a + t)"
      using that(4) by simp
    then have "q dvd b - a" by simp
    moreover have "b - a < q" using that by simp
    ultimately have "b - a = 0" by (meson dvd_imp_le not_less zero_less_iff_neq_zero)
    then show ?thesis using that(1) by simp
  qed
  show ?thesis
  proof (cases "x \<le> y")
    case True
    then show ?thesis using aux assms by blast
  next
    case False
    then have "y = x" using aux [of y x] assms by simp
    then show ?thesis by simp
  qed
qed

lemma mult_mod_inj:
  fixes x y r q :: nat
  assumes "coprime r q" "x < q" "y < q" "(x * r) mod q = (y * r) mod q"
  shows "x = y"
proof -
  have aux: "a = b" if "a \<le> b" "a < q" "b < q" "(a * r) mod q = (b * r) mod q" for a b
  proof -
    have "a * r \<le> b * r" using that(1) by simp
    from mod_eq_dvd_iff_nat [OF this, of q] have "q dvd b * r - a * r"
      using that(4) by simp
    then have "q dvd (b - a) * r" by (simp add: diff_mult_distrib)
    then have "q dvd b - a"
      using assms(1) by (simp add: coprime_commute coprime_dvd_mult_left_iff)
    moreover have "b - a < q" using that by simp
    ultimately have "b - a = 0" by (meson dvd_imp_le not_less zero_less_iff_neq_zero)
    then show ?thesis using that(1) by simp
  qed
  show ?thesis
  proof (cases "x \<le> y")
    case True
    then show ?thesis using aux assms by blast
  next
    case False
    then have "y = x" using aux [of y x] assms by simp
    then show ?thesis by simp
  qed
qed

lemma digit_coeff_inj:
  assumes e: "e < q" "e' < q" and p: "p < q" and q: "unat q < 2 ^ 63" "odd (unat q)"
    and eq: "MFormC (MulSubC c so (if cov then CRed (e + p) q else e) q) q
           = MFormC (MulSubC c so (if cov then CRed (e' + p) q else e') q) q"
  shows "e = e'"
proof -
  let ?y = "if cov then CRed (e + p) q else e"
  let ?y' = "if cov then CRed (e' + p) q else e'"
  let ?x = "MulSubC c so ?y q"
  let ?x' = "MulSubC c so ?y' q"
  have ue: "unat e < unat q" "unat e' < unat q" using e by (simp_all add: word_less_nat_alt)
  have q0: "0 < q" using ue by (simp add: word_less_nat_alt)
  have pl: "unat p \<le> unat q" using p by (simp add: word_less_nat_alt)
  have y: "?y < q" "?y' < q"
    using unat_CRed_sum(2) [OF e(1) pl q(1)] unat_CRed_sum(2) [OF e(2) pl q(1)] e by simp_all
  have x: "unat ?x < unat q" "unat ?x' < unat q"
    using unat_MulSubC(2) [OF y(1) q(1)] unat_MulSubC(2) [OF y(2) q(1)]
    by (simp_all add: word_less_nat_alt)
  have "coprime (2::nat) (unat q)" using q(2) by simp
  then have cop: "coprime ((2::nat) ^ 64) (unat q)" by (rule coprime_power_left_iff [THEN iffD2, OF disjI1])
  have "unat (MFormC ?x q) = unat (MFormC ?x' q)" using eq by (rule arg_cong)
  then have "(unat ?x * 2 ^ 64) mod unat q = (unat ?x' * 2 ^ 64) mod unat q"
    by (simp only: unat_MFormC(1) [OF q0])
  then have "unat ?x = unat ?x'" by (rule mult_mod_inj [OF cop x])
  then have "(unat ?y + (unat q - unat (MRed c so q))) mod unat q
      = (unat ?y' + (unat q - unat (MRed c so q))) mod unat q"
    unfolding unat_MulSubC(1) [OF y(1) q(1)] unat_MulSubC(1) [OF y(2) q(1)] .
  moreover have "unat ?y < unat q" "unat ?y' < unat q"
    using y by (simp_all add: word_less_nat_alt)
  ultimately have uy: "unat ?y = unat ?y'"
    by (rule add_mod_inj [rotated 2])
  have "unat e = unat e'"
  proof (cases cov)
    case True
    then have "(unat e + unat p) mod unat q = (unat e' + unat p) mod unat q"
      using uy unat_CRed_sum(1) [OF e(1) pl q(1)] unat_CRed_sum(1) [OF e(2) pl q(1)] by simp
    then show ?thesis by (rule add_mod_inj [OF ue])
  next
    case False
    then show ?thesis using uy by simp
  qed
  then show ?thesis by (rule unsigned_word_eqI)
qed

text \<open>A digit determines the noise it was made from.\<close>

lemma digit_inj:
  assumes sh: "shaped (ContextKeys bc) pool" "shaped (ContextKeys bc) so"
      "shaped (ContextKeys bc) ci" "shaped (ContextKeys bc) e" "shaped (ContextKeys bc) e'"
    and red: "reduced (ContextKeys bc) pool" "reduced (ContextKeys bc) e" "reduced (ContextKeys bc) e'"
    and rng: "i * Alpha bc + Alpha bc \<le> length (Modulus (ContextKeys bc))"
    and q: "\<forall>q \<in> set (Modulus (ContextKeys bc)). unat q < 2 ^ 63 \<and> odd (unat q)"
    and eq: "digit bc pool so ci i e = digit bc pool so ci i e'"
  shows "e = e'"
proof (rule shaped_eqI [OF sh(4,5)])
  fix l j assume l: "l < length (Modulus (ContextKeys bc))" and j: "j < unat (ctxN (ContextKeys bc))"
  let ?q = "Modulus (ContextKeys bc) ! l"
  have qb: "unat ?q < 2 ^ 63" "odd (unat ?q)" using q l by simp_all
  have r: "e ! l ! j < ?q" "e' ! l ! j < ?q" "pool ! l ! j < ?q"
    using sh red l j by (auto intro: reduced_shaped_coeff)
  have "digit bc pool so ci i e ! l ! j = digit bc pool so ci i e' ! l ! j" using eq by simp
  then show "e ! l ! j = e' ! l ! j"
    unfolding digit_coeff [OF sh(1,2,3,4) rng l j] digit_coeff [OF sh(1,2,3,5) rng l j]
    by (rule digit_coeff_inj [OF r(1,2,3) qb])
qed


lemma valid_final:
  "valid w p \<Longrightarrow> valid (w\<lparr>drawn := d, heap := (heap w)[q := x] @ ds\<rparr>) p"
  by (simp add: valid_def)

text \<open>What one run of an entry point leaves behind.\<close>

lemma rotShare_post:
  assumes sk: "valid w sk" "shaped (ContextKeys (bfvContext rkg)) (cell w sk)"
    and pool: "valid w (polypool rkg)"
      "shaped (ContextKeys (bfvContext rkg)) (cell w (polypool rkg))"
    and ne: "sk \<noteq> polypool rkg"
    and perm: "\<forall>g a. shaped (ContextKeys (bfvContext rkg)) a
                 \<longrightarrow> shaped (ContextKeys (bfvContext rkg)) (perm g a)"
    and crp: "Beta (bfvContext rkg) \<le> length crp"
      "\<forall>k<Beta (bfvContext rkg). valid w (crp ! k) \<and> crp ! k \<noteq> polypool rkg \<and>
          shaped (ContextKeys (bfvContext rkg)) (cell w (crp ! k))"
    and noise: "\<forall>n. shaped (ContextKeys (bfvContext rkg)) (GaussianSampler (bfvContext rkg) n)"
    and range: "Beta (bfvContext rkg) * Alpha (bfvContext rkg)
                  \<le> length (Modulus (ContextKeys (bfvContext rkg)))"
  shows "\<exists>evakey w'. rotShare perm rkg sk g crp w = Inr (evakey, w') \<and>
     length evakey = Beta (bfvContext rkg) \<and>
     drawn w' = drawn w + Beta (bfvContext rkg) \<and>
     length (heap w') = length (heap w) + Beta (bfvContext rkg) \<and>
     (\<forall>p. valid w p \<longrightarrow> valid w' p) \<and>
     (\<forall>p. valid w p \<and> p \<noteq> polypool rkg \<longrightarrow> cell w' p = cell w p) \<and>
     cell w' (polypool rkg) = prepared perm (bfvContext rkg) g (cell w sk) \<and>
     (\<forall>i<Beta (bfvContext rkg). evakey ! i = Suc (length (heap w) + i) \<and>
        cell w' (evakey ! i)
          = digit (bfvContext rkg) (prepared perm (bfvContext rkg) g (cell w sk)) (cell w sk)
              (cell w (crp ! i)) i (GaussianSampler (bfvContext rkg) (drawn w + i)))"
proof -
  let ?bc = "bfvContext rkg"
  let ?B = "Beta ?bc"
  let ?dl = "prepared perm ?bc g (cell w sk)"
  let ?ds = "map (\<lambda>k. digit ?bc ?dl (cell w sk) (cell w (crp ! k)) k
                (GaussianSampler ?bc (drawn w + k))) [0..<?B]"
  let ?ev = "map (\<lambda>k. Suc (length (heap w)) + k) [0..<?B]"
  let ?w' = "w\<lparr>drawn := drawn w + ?B, heap := (heap w)[polypool rkg - 1 := ?dl] @ ?ds\<rparr>"
  have run: "rotShare perm rkg sk g crp w = Inr (?ev, ?w')"
    by (rule rotShare_run [OF sk pool ne perm crp noise range])
  have 1: "length ?ev = ?B" by simp
  have 2: "drawn ?w' = drawn w + ?B" by simp
  have 3: "length (heap ?w') = length (heap w) + ?B" by simp
  have 4: "\<forall>p. valid w p \<longrightarrow> valid ?w' p" by (simp add: valid_final)
  have 5: "\<forall>p. valid w p \<and> p \<noteq> polypool rkg \<longrightarrow> cell ?w' p = cell w p"
    using pool(1) by (blast intro: cell_final_old)
  have 6: "cell ?w' (polypool rkg) = ?dl" using pool(1) by (rule cell_final_pool)
  have 7: "\<forall>i<?B. ?ev ! i = Suc (length (heap w) + i) \<and>
        cell ?w' (?ev ! i) = digit ?bc ?dl (cell w sk) (cell w (crp ! i)) i
              (GaussianSampler ?bc (drawn w + i))"
    by (simp add: cell_final_new)
  show ?thesis using run 1 2 3 4 5 6 7 by blast
qed


subsection \<open>The radix of the fast-multiplication form\<close>

lemma Rinv_radix:
  assumes "odd q"
  shows "(Rinv q * 2 ^ 64) mod q = 1 mod q"
proof -
  have h: "(q + 1) div 2 * 2 = q + 1" using assms by presburger
  have "(Rinv q * 2 ^ 64) mod q = (((q + 1) div 2) ^ 64 * 2 ^ 64) mod q"
    unfolding Rinv_def by (rule mod_mult_left_eq)
  also have "\<dots> = ((q + 1) div 2 * 2) ^ 64 mod q" by (simp only: power_mult_distrib)
  also have "\<dots> = (q + 1) ^ 64 mod q" by (simp only: h)
  also have "\<dots> = ((q + 1) mod q) ^ 64 mod q" by (simp only: power_mod)
  also have "\<dots> = (1 mod q) ^ 64 mod q"
  proof -
    have "(q + 1) mod q = 1 mod q" by (metis add.commute mod_add_self2)
    then show ?thesis by (simp only:)
  qed
  also have "\<dots> = 1 mod q" by (simp only: power_mod power_one)
  finally show ?thesis .
qed

lemma neg_mod_int:
  fixes q x :: nat
  assumes "0 < q"
  shows "int (q - x mod q) mod int q = (- int x) mod int q"
proof -
  have "x mod q < q" using assms by simp
  then have "int (q - x mod q) = int q - int x mod int q" by (simp add: of_nat_diff zmod_int)
  then have "int (q - x mod q) mod int q = (- (int x mod int q)) mod int q" by simp
  then show ?thesis by (simp only: mod_minus_eq)
qed

lemma radix_shift:
  fixes a t q :: nat
  assumes q: "odd q"
  shows "((a + (q - (t * Rinv q) mod q)) mod q * 2 ^ 64) mod q
           = (2 ^ 64 * a + (q - t mod q)) mod q"
proof -
  let ?u = "int (q - (t * Rinv q) mod q)"
  let ?v = "int (q - t mod q)"
  have q0: "0 < q" using q by (cases q) simp_all
  have "int ((Rinv q * 2 ^ 64) mod q) = int (1 mod q)" by (simp only: Rinv_radix [OF q])
  then have inv: "(int (Rinv q) * 2 ^ 64) mod int q = 1 mod int q"
    by (simp only: zmod_int of_nat_mult of_nat_power of_nat_numeral of_nat_1)
  have u: "?u mod int q = (- (int t * int (Rinv q))) mod int q"
    using neg_mod_int [OF q0, of "t * Rinv q"] by simp
  have v: "?v mod int q = (- int t) mod int q" by (rule neg_mod_int [OF q0])
  have "((int a + ?u) mod int q * 2 ^ 64) mod int q = ((int a + ?u) * 2 ^ 64) mod int q"
    by (rule mod_mult_left_eq)
  also have "\<dots> = ((int a + - (int t * int (Rinv q))) * 2 ^ 64) mod int q"
    by (rule mod_mult_cong [OF mod_add_cong [OF refl u] refl])
  also have "\<dots> = (int a * 2 ^ 64 - int t * (int (Rinv q) * 2 ^ 64)) mod int q"
    by (simp add: algebra_simps)
  also have "\<dots> = (int a * 2 ^ 64 - int t * 1) mod int q"
    by (rule mod_diff_cong [OF refl mod_mult_cong [OF refl inv]])
  also have "\<dots> = (2 ^ 64 * int a + - int t) mod int q" by (simp add: algebra_simps)
  also have "\<dots> = (2 ^ 64 * int a + ?v) mod int q"
    by (rule mod_add_cong [OF refl v [symmetric]])
  finally have "int (((a + (q - (t * Rinv q) mod q)) mod q * 2 ^ 64) mod q)
      = int ((2 ^ 64 * a + (q - t mod q)) mod q)"
    by (simp add: zmod_int)
  then show ?thesis by (simp only: of_nat_eq_iff)
qed

subsection \<open>A digit in closed form\<close>

lemma shaped_digit_formula: "shaped (ContextKeys bc) (digit_formula r bc e s c so i)"
  by (simp add: shaped_def digit_formula_def)

lemma digit_formula_coeff:
  assumes "l < length (Modulus (ContextKeys bc))" "j < unat (ctxN (ContextKeys bc))"
  shows "digit_formula r bc e s c so i ! l ! j =
     word_of_nat
       ((r * (unat (e ! l ! j)
              + (if i * Alpha bc \<le> l \<and> l < i * Alpha bc + Alpha bc \<and>
                    l < length (Modulus (ContextQ bc))
                 then unat (s ! l ! j) else 0))
         + (unat (Modulus (ContextKeys bc) ! l)
            - (unat (c ! l ! j) * unat (so ! l ! j)) mod unat (Modulus (ContextKeys bc) ! l)))
        mod unat (Modulus (ContextKeys bc) ! l))"
  using assms by (simp add: digit_formula_def)

lemma shaped_digit:
  assumes "shaped (ContextKeys bc) pool" "shaped (ContextKeys bc) so"
      "shaped (ContextKeys bc) ci" "shaped (ContextKeys bc) e"
    and "i * Alpha bc + Alpha bc \<le> length (Modulus (ContextKeys bc))"
  shows "shaped (ContextKeys bc) (digit bc pool so ci i e)"
  unfolding digit_def using assms by (simp add: shaped_injected)

lemma digit_is_formula:
  assumes ctx: "Modulus (ContextKeys bc) = Modulus (ContextQ bc) @ KeySwitchPrimes bc"
    and bound: "\<forall>q \<in> set (Modulus (ContextKeys bc)). 0 < q \<and> unat q < 2 ^ 63 \<and> odd (unat q)"
    and s: "shaped (ContextKeys bc) s"
    and perm: "\<forall>g a. shaped (ContextKeys bc) a \<longrightarrow> shaped (ContextKeys bc) (perm g a)"
    and ci: "shaped (ContextKeys bc) ci"
    and e: "shaped (ContextKeys bc) e" "reduced (ContextKeys bc) e"
    and rng: "i * Alpha bc + Alpha bc \<le> length (Modulus (ContextKeys bc))"
  shows "digit bc (prepared perm bc g s) s ci i e
           = digit_formula (2 ^ 64) bc e (prepared perm bc g s) ci s i"
    and "reduced (ContextKeys bc) (digit bc (prepared perm bc g s) s ci i e)"
proof -
  let ?c = "ContextKeys bc"
  let ?A = "Alpha bc"
  let ?dl = "prepared perm bc g s"
  have shd: "shaped ?c ?dl" using s perm by (rule shaped_prepared)
  have q0: "\<forall>q \<in> set (Modulus ?c). 0 < q" using bound by simp
  have red: "reduced ?c ?dl" using s perm q0 by (rule prepared_reduced)
  have shg: "shaped ?c (digit bc ?dl s ci i e)" by (rule shaped_digit [OF shd s ci e(1) rng])
  have coeff: "digit bc ?dl s ci i e ! l ! j = digit_formula (2 ^ 64) bc e ?dl ci s i ! l ! j \<and>
      digit bc ?dl s ci i e ! l ! j < Modulus ?c ! l"
    if l: "l < length (Modulus ?c)" and j: "j < unat (ctxN ?c)" for l j
  proof -
    let ?q = "Modulus ?c ! l"
    let ?e = "e ! l ! j"
    let ?p = "?dl ! l ! j"
    let ?blk = "i * ?A \<le> l \<and> l < i * ?A + ?A"
    let ?cov = "?blk \<and> (length (Modulus (ContextQ bc)) < i * ?A \<or> l \<le> length (Modulus (ContextQ bc)))"
    let ?in = "?blk \<and> l < length (Modulus (ContextQ bc))"
    let ?x = "MulSubC (ci ! l ! j) (s ! l ! j) (if ?cov then CRed (?e + ?p) ?q else ?e) ?q"
    have qin: "?q \<in> set (Modulus ?c)" using l by simp
    then have qb: "0 < ?q" "unat ?q < 2 ^ 63" "odd (unat ?q)" using bound by simp_all
    have dc: "digit bc ?dl s ci i e ! l ! j = MFormC ?x ?q"
      using digit_coeff [OF shd s ci e(1) rng l j] by simp
    have el: "?e < ?q" by (rule reduced_shaped_coeff [OF e l j])
    have pl: "?p < ?q" by (rule reduced_shaped_coeff [OF shd red l j])
    have z: "?p = 0" if "length (Modulus (ContextQ bc)) \<le> l"
      using prepared_zero [OF s perm ctx that l j] .
    have ux: "unat ?x = (unat ?e + (if ?blk then unat ?p else 0)
            + (unat ?q - (unat (ci ! l ! j) * unat (s ! l ! j) * Rinv (unat ?q)) mod unat ?q))
              mod unat ?q"
      by (rule digit_arith [OF el pl qb(2)]) (use z in auto)
    have pb: "(if ?blk then unat ?p else 0) = (if ?in then unat ?p else 0)"
      using z by (cases "l < length (Modulus (ContextQ bc))") simp_all
    have "MFormC ?x ?q = word_of_nat ((unat ?x * 2 ^ 64) mod unat ?q)" by (simp add: MFormC_def)
    also have "(unat ?x * 2 ^ 64) mod unat ?q
        = (2 ^ 64 * (unat ?e + (if ?in then unat ?p else 0))
             + (unat ?q - (unat (ci ! l ! j) * unat (s ! l ! j)) mod unat ?q)) mod unat ?q"
      unfolding ux pb by (rule radix_shift [OF qb(3)])
    finally have "MFormC ?x ?q = digit_formula (2 ^ 64) bc e ?dl ci s i ! l ! j"
      by (simp only: digit_formula_coeff [OF l j] conj_assoc)
    moreover have "MFormC ?x ?q < ?q" using qb(1) by (rule unat_MFormC(2))
    ultimately show ?thesis unfolding dc by simp
  qed
  show "digit bc ?dl s ci i e = digit_formula (2 ^ 64) bc e ?dl ci s i"
    by (rule shaped_eqI [OF shg shaped_digit_formula]) (use coeff in blast)
  show "reduced ?c (digit bc ?dl s ci i e)"
    by (rule reducedI [OF shg]) (use coeff in blast)
qed

text \<open>One run of an entry point, with its digits in closed form.\<close>

lemma rotShare_formula:
  assumes ctx: "Modulus (ContextKeys (bfvContext rkg))
                  = Modulus (ContextQ (bfvContext rkg)) @ KeySwitchPrimes (bfvContext rkg)"
    and bound: "\<forall>q \<in> set (Modulus (ContextKeys (bfvContext rkg))).
                  0 < q \<and> unat q < 2 ^ 63 \<and> odd (unat q)"
    and range: "Beta (bfvContext rkg) * Alpha (bfvContext rkg)
                  \<le> length (Modulus (ContextKeys (bfvContext rkg)))"
    and noise: "\<forall>n. shaped (ContextKeys (bfvContext rkg)) (GaussianSampler (bfvContext rkg) n) \<and>
                    reduced (ContextKeys (bfvContext rkg)) (GaussianSampler (bfvContext rkg) n)"
    and perm: "\<forall>g a. shaped (ContextKeys (bfvContext rkg)) a
                 \<longrightarrow> shaped (ContextKeys (bfvContext rkg)) (perm g a)"
    and sk: "valid w sk" "shaped (ContextKeys (bfvContext rkg)) (cell w sk)" "sk \<noteq> polypool rkg"
    and pool: "valid w (polypool rkg)"
      "shaped (ContextKeys (bfvContext rkg)) (cell w (polypool rkg))"
    and crp: "length crp = Beta (bfvContext rkg)"
      "\<forall>i<Beta (bfvContext rkg). valid w (crp ! i) \<and> crp ! i \<noteq> polypool rkg \<and>
          shaped (ContextKeys (bfvContext rkg)) (cell w (crp ! i))"
  shows "\<exists>evakey w'. rotShare perm rkg sk g crp w = Inr (evakey, w') \<and>
     length evakey = Beta (bfvContext rkg) \<and>
     cell w' (polypool rkg) = prepared perm (bfvContext rkg) g (cell w sk) \<and>
     (\<forall>i<Beta (bfvContext rkg).
        reduced (ContextKeys (bfvContext rkg)) (cell w' (evakey ! i)) \<and>
        cell w' (evakey ! i)
          = digit_formula (2 ^ 64) (bfvContext rkg)
              (GaussianSampler (bfvContext rkg) (drawn w + i)) (cell w' (polypool rkg))
              (cell w (crp ! i)) (cell w sk) i)"
proof -
  let ?bc = "bfvContext rkg"
  let ?c = "ContextKeys ?bc"
  let ?B = "Beta ?bc"
  let ?G = "GaussianSampler ?bc"
  let ?dl = "prepared perm ?bc g (cell w sk)"
  have nz: "\<forall>n. shaped ?c (?G n)" using noise by simp
  have cl: "?B \<le> length crp" using crp(1) by simp
  obtain evakey w' where r: "rotShare perm rkg sk g crp w = Inr (evakey, w')"
    and len: "length evakey = ?B"
    and p: "cell w' (polypool rkg) = ?dl"
    and e: "\<forall>i<?B. evakey ! i = Suc (length (heap w) + i) \<and>
        cell w' (evakey ! i) = digit ?bc ?dl (cell w sk) (cell w (crp ! i)) i (?G (drawn w + i))"
    using rotShare_post [OF sk(1,2) pool sk(3) perm cl crp(2) nz range, of g] by blast
  have d: "reduced ?c (cell w' (evakey ! i)) \<and>
        cell w' (evakey ! i)
          = digit_formula (2 ^ 64) ?bc (?G (drawn w + i)) (cell w' (polypool rkg))
              (cell w (crp ! i)) (cell w sk) i" if i: "i < ?B" for i
  proof -
    have rng: "i * Alpha ?bc + Alpha ?bc \<le> length (Modulus ?c)"
    proof -
      have "Suc i * Alpha ?bc \<le> ?B * Alpha ?bc" using i by (intro mult_le_mono1) simp
      then show ?thesis using range by simp
    qed
    have shc: "shaped ?c (cell w (crp ! i))" using crp(2) i by simp
    have n: "shaped ?c (?G (drawn w + i))" "reduced ?c (?G (drawn w + i))" using noise by simp_all
    have cv: "cell w' (evakey ! i)
        = digit ?bc ?dl (cell w sk) (cell w (crp ! i)) i (?G (drawn w + i))"
      using e i by blast
    show ?thesis unfolding cv p
      using digit_is_formula [OF ctx bound sk(2) perm shc n rng, of g] by blast
  qed
  show ?thesis using r len p d by blast
qed

text \<open>Two runs of an entry point, one after the other.\<close>

lemma rotShare_fresh:
  assumes bound: "\<forall>q \<in> set (Modulus (ContextKeys (bfvContext rkg))).
                     0 < q \<and> unat q < 2 ^ 63 \<and> odd (unat q)"
    and range: "Beta (bfvContext rkg) * Alpha (bfvContext rkg)
                  \<le> length (Modulus (ContextKeys (bfvContext rkg)))"
    and noise: "\<forall>n. shaped (ContextKeys (bfvContext rkg)) (GaussianSampler (bfvContext rkg) n) \<and>
                    reduced (ContextKeys (bfvContext rkg)) (GaussianSampler (bfvContext rkg) n)"
    and perm: "\<forall>g a. shaped (ContextKeys (bfvContext rkg)) a
                 \<longrightarrow> shaped (ContextKeys (bfvContext rkg)) (perm g a)"
    and sk: "valid w sk" "shaped (ContextKeys (bfvContext rkg)) (cell w sk)" "sk \<noteq> polypool rkg"
    and pool: "valid w (polypool rkg)"
      "shaped (ContextKeys (bfvContext rkg)) (cell w (polypool rkg))"
    and crp: "length crp = Beta (bfvContext rkg)"
      "\<forall>i<Beta (bfvContext rkg). valid w (crp ! i) \<and> crp ! i \<noteq> polypool rkg \<and>
          shaped (ContextKeys (bfvContext rkg)) (cell w (crp ! i))"
  shows "\<exists>ev1 w1 ev2 w2.
     rotShare perm rkg sk g crp w = Inr (ev1, w1) \<and>
     rotShare perm rkg sk g crp w1 = Inr (ev2, w2) \<and>
     drawn w1 = drawn w + Beta (bfvContext rkg) \<and>
     drawn w2 = drawn w1 + Beta (bfvContext rkg) \<and>
     (\<forall>i<Beta (bfvContext rkg).
        GaussianSampler (bfvContext rkg) (drawn w + i)
          \<noteq> GaussianSampler (bfvContext rkg) (drawn w1 + i)
        \<longrightarrow> cell w2 (ev1 ! i) \<noteq> cell w2 (ev2 ! i))"
proof -
  let ?bc = "bfvContext rkg"
  let ?c = "ContextKeys ?bc"
  let ?B = "Beta ?bc"
  let ?G = "GaussianSampler ?bc"
  let ?p = "polypool rkg"
  let ?dl = "prepared perm ?bc g (cell w sk)"
  have nz: "\<forall>n. shaped ?c (?G n)" using noise by simp
  have cl: "?B \<le> length crp" using crp(1) by simp
  obtain ev1 w1 where r1: "rotShare perm rkg sk g crp w = Inr (ev1, w1)"
    and d1: "drawn w1 = drawn w + ?B"
    and h1: "length (heap w1) = length (heap w) + ?B"
    and v1: "\<forall>p. valid w p \<longrightarrow> valid w1 p"
    and f1: "\<forall>p. valid w p \<and> p \<noteq> ?p \<longrightarrow> cell w1 p = cell w p"
    and p1: "cell w1 ?p = ?dl"
    and e1: "\<forall>i<?B. ev1 ! i = Suc (length (heap w) + i) \<and>
        cell w1 (ev1 ! i) = digit ?bc ?dl (cell w sk) (cell w (crp ! i)) i (?G (drawn w + i))"
    using rotShare_post [OF sk(1,2) pool sk(3) perm cl crp(2) nz range, of g] by blast
  have shd: "shaped ?c ?dl" using sk(2) perm by (rule shaped_prepared)
  have sk1: "valid w1 sk" "cell w1 sk = cell w sk" using v1 f1 sk by simp_all
  have sk1s: "shaped ?c (cell w1 sk)" unfolding sk1(2) by (rule sk(2))
  have pool1: "valid w1 ?p" "shaped ?c (cell w1 ?p)" using v1 pool(1) p1 shd by simp_all
  have crp1: "\<forall>i<?B. valid w1 (crp ! i) \<and> crp ! i \<noteq> ?p \<and> shaped ?c (cell w1 (crp ! i))"
    using crp(2) v1 f1 by simp
  obtain ev2 w2 where r2: "rotShare perm rkg sk g crp w1 = Inr (ev2, w2)"
    and d2: "drawn w2 = drawn w1 + ?B"
    and f2: "\<forall>p. valid w1 p \<and> p \<noteq> ?p \<longrightarrow> cell w2 p = cell w1 p"
    and e2: "\<forall>i<?B. ev2 ! i = Suc (length (heap w1) + i) \<and>
        cell w2 (ev2 ! i) = digit ?bc (prepared perm ?bc g (cell w1 sk)) (cell w1 sk)
            (cell w1 (crp ! i)) i (?G (drawn w1 + i))"
    using rotShare_post [OF sk1(1) sk1s pool1 sk(3) perm cl crp1 nz range, of g] by blast
  have q0: "\<forall>q \<in> set (Modulus ?c). 0 < q" using bound by simp
  have qo: "\<forall>q \<in> set (Modulus ?c). unat q < 2 ^ 63 \<and> odd (unat q)" using bound by simp
  have red: "reduced ?c ?dl" using sk(2) perm q0 by (rule prepared_reduced)
  have diff: "cell w2 (ev1 ! i) \<noteq> cell w2 (ev2 ! i)"
    if i: "i < ?B" and ne: "?G (drawn w + i) \<noteq> ?G (drawn w1 + i)" for i
  proof
    assume eq: "cell w2 (ev1 ! i) = cell w2 (ev2 ! i)"
    have a: "ev1 ! i = Suc (length (heap w) + i)" using e1 i by simp
    have "valid w1 (ev1 ! i)" unfolding a using i h1 by (simp add: valid_def)
    moreover have "ev1 ! i \<noteq> ?p" unfolding a using valid_le [OF pool(1)] by simp
    ultimately have "cell w2 (ev1 ! i) = cell w1 (ev1 ! i)" using f2 by blast
    moreover have "cell w1 (ev1 ! i)
        = digit ?bc ?dl (cell w sk) (cell w (crp ! i)) i (?G (drawn w + i))"
      using e1 i by blast
    ultimately have l: "cell w2 (ev1 ! i)
        = digit ?bc ?dl (cell w sk) (cell w (crp ! i)) i (?G (drawn w + i))"
      by (rule trans)
    have ci: "cell w1 (crp ! i) = cell w (crp ! i)" using crp(2) f1 i by simp
    have "cell w2 (ev2 ! i) = digit ?bc (prepared perm ?bc g (cell w1 sk)) (cell w1 sk)
            (cell w1 (crp ! i)) i (?G (drawn w1 + i))"
      using e2 i by blast
    then have r: "cell w2 (ev2 ! i)
        = digit ?bc ?dl (cell w sk) (cell w (crp ! i)) i (?G (drawn w1 + i))"
      by (simp only: sk1(2) ci)
    have rng: "i * Alpha ?bc + Alpha ?bc \<le> length (Modulus ?c)"
    proof -
      have "Suc i * Alpha ?bc \<le> ?B * Alpha ?bc" using i by (intro mult_le_mono1) simp
      then show ?thesis using range by simp
    qed
    have shc: "shaped ?c (cell w (crp ! i))" using crp(2) i by simp
    have "?G (drawn w + i) = ?G (drawn w1 + i)"
    proof (rule digit_inj [OF shd sk(2) shc _ _ red _ _ rng qo])
      show "digit ?bc ?dl (cell w sk) (cell w (crp ! i)) i (?G (drawn w + i))
          = digit ?bc ?dl (cell w sk) (cell w (crp ! i)) i (?G (drawn w1 + i))"
        using eq l r by simp
    qed (use noise in simp_all)
    then show False using ne by simp
  qed
  show ?thesis
    using r1 r2 d1 d2 diff by blast
qed

subsection \<open>Claims on share generation\<close>

text \<open>
  Claim C1. On a context whose key chain is the chain of \<open>ContextQ\<close> followed by the
  key-switching primes, all odd and below \<open>2^63\<close>, with \<open>Beta * Alpha\<close> rows at most, reduced
  noise and a common random polynomial of length \<open>Beta\<close>, each of \<open>GenShareRotLeft\<close>,
  \<open>GenShareRotRight\<close> and \<open>GenShareRotRow\<close> returns exactly \<open>Beta\<close> polynomials. The scratch
  polynomial holds the prepared difference \<open>skIn\<close> for the Galois element of the entry
  point, and every digit is reduced modulo the primes of its rows. The last call of
  \<open>genswitchkey\<close> is \<open>MForm\<close>: digit \<open>i\<close> is left in fast-multiplication representation, so
  what is stored is \<open>2^64 * (noise_i + skIn * factor) - crp[i] * skOut\<close> modulo each prime,
  not \<open>noise_i + skIn * factor - crp[i] * skOut\<close>; the factor is \<open>1\<close> on the rows of
  \<open>ContextQ\<close> among \<open>i * Alpha, ..., i * Alpha + Alpha - 1\<close> and \<open>0\<close> on every other row.
\<close>

theorem share_digits:
  assumes ctx: "Modulus (ContextKeys (bfvContext rkg))
                  = Modulus (ContextQ (bfvContext rkg)) @ KeySwitchPrimes (bfvContext rkg)"
    and bound: "\<forall>q \<in> set (Modulus (ContextKeys (bfvContext rkg))).
                  0 < q \<and> unat q < 2 ^ 63 \<and> odd (unat q)"
    and range: "Beta (bfvContext rkg) * Alpha (bfvContext rkg)
                  \<le> length (Modulus (ContextKeys (bfvContext rkg)))"
    and noise: "\<forall>n. shaped (ContextKeys (bfvContext rkg)) (GaussianSampler (bfvContext rkg) n) \<and>
                    reduced (ContextKeys (bfvContext rkg)) (GaussianSampler (bfvContext rkg) n)"
    and perm: "\<forall>g a. shaped (ContextKeys (bfvContext rkg)) a
                 \<longrightarrow> shaped (ContextKeys (bfvContext rkg)) (perm g a)"
    and sk: "valid w sk" "shaped (ContextKeys (bfvContext rkg)) (cell w sk)" "sk \<noteq> polypool rkg"
    and pool: "valid w (polypool rkg)"
      "shaped (ContextKeys (bfvContext rkg)) (cell w (polypool rkg))"
    and crp: "length crp = Beta (bfvContext rkg)"
      "\<forall>i<Beta (bfvContext rkg). valid w (crp ! i) \<and> crp ! i \<noteq> polypool rkg \<and>
          shaped (ContextKeys (bfvContext rkg)) (cell w (crp ! i))"
    and tables:
      "unat (k AND (drop_bit 1 (ctxN (ContextKeys (bfvContext rkg))) - 1))
         < length (galElRotColLeft rkg)"
      "unat (k AND (drop_bit 1 (ctxN (ContextKeys (bfvContext rkg))) - 1))
         < length (galElRotColRight rkg)"
  shows "(\<exists>evakey w'. GenShareRotLeft perm rkg sk k crp w = Inr (evakey, w') \<and>
            length evakey = Beta (bfvContext rkg) \<and>
            cell w' (polypool rkg)
              = prepared perm (bfvContext rkg)
                  (galElRotColLeft rkg
                     ! unat (k AND (drop_bit 1 (ctxN (ContextKeys (bfvContext rkg))) - 1)))
                  (cell w sk) \<and>
            (\<forall>i<Beta (bfvContext rkg).
               reduced (ContextKeys (bfvContext rkg)) (cell w' (evakey ! i)) \<and>
               cell w' (evakey ! i)
                 = digit_formula (2 ^ 64) (bfvContext rkg)
                     (GaussianSampler (bfvContext rkg) (drawn w + i)) (cell w' (polypool rkg))
                     (cell w (crp ! i)) (cell w sk) i)) \<and>
         (\<exists>evakey w'. GenShareRotRight perm rkg sk k crp w = Inr (evakey, w') \<and>
            length evakey = Beta (bfvContext rkg) \<and>
            cell w' (polypool rkg)
              = prepared perm (bfvContext rkg)
                  (galElRotColRight rkg
                     ! unat (k AND (drop_bit 1 (ctxN (ContextKeys (bfvContext rkg))) - 1)))
                  (cell w sk) \<and>
            (\<forall>i<Beta (bfvContext rkg).
               reduced (ContextKeys (bfvContext rkg)) (cell w' (evakey ! i)) \<and>
               cell w' (evakey ! i)
                 = digit_formula (2 ^ 64) (bfvContext rkg)
                     (GaussianSampler (bfvContext rkg) (drawn w + i)) (cell w' (polypool rkg))
                     (cell w (crp ! i)) (cell w sk) i)) \<and>
         (\<exists>evakey w'. GenShareRotRow perm rkg sk crp w = Inr (evakey, w') \<and>
            length evakey = Beta (bfvContext rkg) \<and>
            cell w' (polypool rkg)
              = prepared perm (bfvContext rkg) (galElRotRow rkg) (cell w sk) \<and>
            (\<forall>i<Beta (bfvContext rkg).
               reduced (ContextKeys (bfvContext rkg)) (cell w' (evakey ! i)) \<and>
               cell w' (evakey ! i)
                 = digit_formula (2 ^ 64) (bfvContext rkg)
                     (GaussianSampler (bfvContext rkg) (drawn w + i)) (cell w' (polypool rkg))
                     (cell w (crp ! i)) (cell w sk) i))"
proof -
  let ?k = "unat (k AND (drop_bit 1 (ctxN (ContextKeys (bfvContext rkg))) - 1))"
  have l: "GenShareRotLeft perm rkg sk k crp w
      = rotShare perm rkg sk (galElRotColLeft rkg ! ?k) crp w"
    using tables(1) by (simp add: GenShareRotLeft_def Let_def del: drop_bit_Suc)
  have r: "GenShareRotRight perm rkg sk k crp w
      = rotShare perm rkg sk (galElRotColRight rkg ! ?k) crp w"
    using tables(2) by (simp add: GenShareRotRight_def Let_def del: drop_bit_Suc)
  have row: "GenShareRotRow perm rkg sk crp w = rotShare perm rkg sk (galElRotRow rkg) crp w"
    by (simp add: GenShareRotRow_def)
  show ?thesis
    unfolding l r row
    by (intro conjI rotShare_formula [OF ctx bound range noise perm sk pool crp])
qed

lemma small_hyps:
  "Modulus (ContextKeys (bfvContext small_rkg))
      = Modulus (ContextQ (bfvContext small_rkg)) @ KeySwitchPrimes (bfvContext small_rkg)"
  "\<forall>q \<in> set (Modulus (ContextKeys (bfvContext small_rkg))).
      0 < q \<and> unat q < 2 ^ 63 \<and> odd (unat q)"
  "Beta (bfvContext small_rkg) * Alpha (bfvContext small_rkg)
      \<le> length (Modulus (ContextKeys (bfvContext small_rkg)))"
  "\<forall>n. shaped (ContextKeys (bfvContext small_rkg)) (GaussianSampler (bfvContext small_rkg) n) \<and>
       reduced (ContextKeys (bfvContext small_rkg)) (GaussianSampler (bfvContext small_rkg) n)"
  "\<forall>g a. shaped (ContextKeys (bfvContext small_rkg)) a
       \<longrightarrow> shaped (ContextKeys (bfvContext small_rkg)) (small_perm g a)"
  "valid small_world 2" "shaped (ContextKeys (bfvContext small_rkg)) (cell small_world 2)"
  "2 \<noteq> polypool small_rkg"
  "valid small_world (polypool small_rkg)"
  "shaped (ContextKeys (bfvContext small_rkg)) (cell small_world (polypool small_rkg))"
  "length small_crp = Beta (bfvContext small_rkg)"
  "\<forall>i<Beta (bfvContext small_rkg). valid small_world (small_crp ! i) \<and>
       small_crp ! i \<noteq> polypool small_rkg \<and>
       shaped (ContextKeys (bfvContext small_rkg)) (cell small_world (small_crp ! i))"
proof -
  show "Modulus (ContextKeys (bfvContext small_rkg))
      = Modulus (ContextQ (bfvContext small_rkg)) @ KeySwitchPrimes (bfvContext small_rkg)"
    by (simp add: small_context)
  show "\<forall>q \<in> set (Modulus (ContextKeys (bfvContext small_rkg))).
      0 < q \<and> unat q < 2 ^ 63 \<and> odd (unat q)"
    by (simp add: small_context)
  show "Beta (bfvContext small_rkg) * Alpha (bfvContext small_rkg)
      \<le> length (Modulus (ContextKeys (bfvContext small_rkg)))"
    by (simp add: small_context)
  show "\<forall>n. shaped (ContextKeys (bfvContext small_rkg)) (GaussianSampler (bfvContext small_rkg) n) \<and>
       reduced (ContextKeys (bfvContext small_rkg)) (GaussianSampler (bfvContext small_rkg) n)"
    using small_noise_ok by (simp add: small_context)
  show "\<forall>g a. shaped (ContextKeys (bfvContext small_rkg)) a
       \<longrightarrow> shaped (ContextKeys (bfvContext small_rkg)) (small_perm g a)"
    using small_perm_ok by (simp add: small_context)
  show "valid small_world 2" "shaped (ContextKeys (bfvContext small_rkg)) (cell small_world 2)"
    "2 \<noteq> polypool small_rkg" "valid small_world (polypool small_rkg)"
    "shaped (ContextKeys (bfvContext small_rkg)) (cell small_world (polypool small_rkg))"
    using small_shapes by (simp_all add: small_context)
  show "length small_crp = Beta (bfvContext small_rkg)"
    by (simp add: small_context small_crp_def)
  show "\<forall>i<Beta (bfvContext small_rkg). valid small_world (small_crp ! i) \<and>
       small_crp ! i \<noteq> polypool small_rkg \<and>
       shaped (ContextKeys (bfvContext small_rkg)) (cell small_world (small_crp ! i))"
    using small_shapes by (simp add: small_context all_less_2 small_crp_def)
qed

lemma small_tables:
  "unat ((5::u64) AND (drop_bit 1 (ctxN (ContextKeys (bfvContext small_rkg))) - 1)) = 1"
  "unat ((9::u64) AND (drop_bit 1 (ctxN (ContextKeys (bfvContext small_rkg))) - 1)) = 1"
  "unat ((5::u64) AND (drop_bit 1 (bfvN (bfvContext small_rkg)) - 1)) = 1"
  by (simp_all add: small_context)

lemma small_prepared:
  "prepared small_perm small_bc 5 (cell small_world 2) ! 1 ! 0 = 65"
  "prepared small_perm small_bc 13 (cell small_world 2) ! 1 ! 0 = 30"
  "prepared small_perm small_bc 15 (cell small_world 2) ! 1 ! 0 = 54"
proof -
  have s: "shaped (ContextKeys small_bc) (cell small_world 2)"
    using small_hyps(7) by (simp add: small_context)
  have p: "\<forall>g a. shaped (ContextKeys small_bc) a \<longrightarrow> shaped (ContextKeys small_bc) (small_perm g a)"
    using small_hyps(5) by (simp add: small_context)
  have l: "1 < length (Modulus (ContextKeys small_bc))" "0 < unat (ctxN (ContextKeys small_bc))"
    by (simp_all add: small_context)
  show "prepared small_perm small_bc 5 (cell small_world 2) ! 1 ! 0 = 65"
    unfolding prepared_coeff [OF s p l]
    by (simp add: small_context small_world_def cell_def small_perm_def small_slot_def bitrev3_def
          InvMFormC_def MulScalarC_def SubC_def CRed_def Rinv_def)
  show "prepared small_perm small_bc 13 (cell small_world 2) ! 1 ! 0 = 30"
    unfolding prepared_coeff [OF s p l]
    by (simp add: small_context small_world_def cell_def small_perm_def small_slot_def bitrev3_def
          InvMFormC_def MulScalarC_def SubC_def CRed_def Rinv_def)
  show "prepared small_perm small_bc 15 (cell small_world 2) ! 1 ! 0 = 54"
    unfolding prepared_coeff [OF s p l]
    by (simp add: small_context small_world_def cell_def small_perm_def small_slot_def bitrev3_def
          InvMFormC_def MulScalarC_def SubC_def CRed_def Rinv_def)
qed

lemma small_digit_values:
  "digit_formula (2 ^ 64) small_bc (small_noise 0)
      (prepared small_perm small_bc 5 (cell small_world 2))
      (cell small_world 3) (cell small_world 2) 0 ! 1 ! 0 = 19"
  "digit_formula (2 ^ 64) small_bc (small_noise 0)
      (prepared small_perm small_bc 13 (cell small_world 2))
      (cell small_world 3) (cell small_world 2) 0 ! 1 ! 0 = 18"
  "digit_formula (2 ^ 64) small_bc (small_noise 0)
      (prepared small_perm small_bc 15 (cell small_world 2))
      (cell small_world 3) (cell small_world 2) 0 ! 1 ! 0 = 27"
  "digit_formula 1 small_bc (small_noise 0)
      (prepared small_perm small_bc 5 (cell small_world 2))
      (cell small_world 3) (cell small_world 2) 0 ! 1 ! 0 = 36"
proof -
  have l: "1 < length (Modulus (ContextKeys small_bc))" "0 < unat (ctxN (ContextKeys small_bc))"
    by (simp_all add: small_context)
  show "digit_formula (2 ^ 64) small_bc (small_noise 0)
      (prepared small_perm small_bc 5 (cell small_world 2))
      (cell small_world 3) (cell small_world 2) 0 ! 1 ! 0 = 19"
    unfolding digit_formula_coeff [OF l] small_prepared
    by (simp add: small_context small_world_def cell_def small_noise_def)
  show "digit_formula (2 ^ 64) small_bc (small_noise 0)
      (prepared small_perm small_bc 13 (cell small_world 2))
      (cell small_world 3) (cell small_world 2) 0 ! 1 ! 0 = 18"
    unfolding digit_formula_coeff [OF l] small_prepared
    by (simp add: small_context small_world_def cell_def small_noise_def)
  show "digit_formula (2 ^ 64) small_bc (small_noise 0)
      (prepared small_perm small_bc 15 (cell small_world 2))
      (cell small_world 3) (cell small_world 2) 0 ! 1 ! 0 = 27"
    unfolding digit_formula_coeff [OF l] small_prepared
    by (simp add: small_context small_world_def cell_def small_noise_def)
  show "digit_formula 1 small_bc (small_noise 0)
      (prepared small_perm small_bc 5 (cell small_world 2))
      (cell small_world 3) (cell small_world 2) 0 ! 1 ! 0 = 36"
    unfolding digit_formula_coeff [OF l] small_prepared
    by (simp add: small_context small_world_def cell_def small_noise_def)
qed

text \<open>
  The digits are not in standard representation: on the small instance, coefficient \<open>0\<close>
  of row \<open>1\<close> (prime \<open>97\<close>) of digit \<open>0\<close> of the share for the amount \<open>5\<close> is \<open>19\<close>, where
  \<open>noise + skIn * factor - crp * skOut\<close> is \<open>36\<close>.
\<close>

theorem share_digits_not_standard:
  "share_polys (GenShareRotLeft small_perm small_rkg 2 5 small_crp small_world) ! 0
     \<noteq> digit_formula 1 small_bc (small_noise 0)
          (prepared small_perm small_bc 5 (cell small_world 2))
          (cell small_world 3) (cell small_world 2) 0 \<and>
   share_polys (GenShareRotLeft small_perm small_rkg 2 5 small_crp small_world) ! 0 ! 1 ! 0 = 19 \<and>
   digit_formula 1 small_bc (small_noise 0)
     (prepared small_perm small_bc 5 (cell small_world 2))
     (cell small_world 3) (cell small_world 2) 0 ! 1 ! 0 = 36"
proof -
  have gs: "GenShareRotLeft small_perm small_rkg 2 5 small_crp small_world
      = rotShare small_perm small_rkg 2 5 small_crp small_world"
    by (simp add: GenShareRotLeft_def Let_def small_context)
  obtain evakey w' where r: "rotShare small_perm small_rkg 2 5 small_crp small_world = Inr (evakey, w')"
    and len: "length evakey = Beta (bfvContext small_rkg)"
    and p: "cell w' (polypool small_rkg)
        = prepared small_perm (bfvContext small_rkg) 5 (cell small_world 2)"
    and d: "\<forall>i<Beta (bfvContext small_rkg).
        reduced (ContextKeys (bfvContext small_rkg)) (cell w' (evakey ! i)) \<and>
        cell w' (evakey ! i)
          = digit_formula (2 ^ 64) (bfvContext small_rkg)
              (GaussianSampler (bfvContext small_rkg) (drawn small_world + i))
              (cell w' (polypool small_rkg)) (cell small_world (small_crp ! i))
              (cell small_world 2) i"
    using rotShare_formula [OF small_hyps, of 5] by blast
  have "cell w' (evakey ! 0)
      = digit_formula (2 ^ 64) (bfvContext small_rkg)
              (GaussianSampler (bfvContext small_rkg) (drawn small_world + 0))
              (cell w' (polypool small_rkg)) (cell small_world (small_crp ! 0))
              (cell small_world 2) 0"
    using d by (simp add: small_context)
  then have c: "cell w' (evakey ! 0)
      = digit_formula (2 ^ 64) small_bc (small_noise 0)
          (prepared small_perm small_bc 5 (cell small_world 2))
          (cell small_world 3) (cell small_world 2) 0"
    unfolding p by (simp add: small_context small_crp_def small_world_def)
  have s: "share_polys (GenShareRotLeft small_perm small_rkg 2 5 small_crp small_world) ! 0
      = cell w' (evakey ! 0)"
    unfolding gs r using len by (simp add: share_polys_def small_context)
  have v: "share_polys (GenShareRotLeft small_perm small_rkg 2 5 small_crp small_world) ! 0 ! 1 ! 0
      = 19"
    unfolding s c by (rule small_digit_values(1))
  have "share_polys (GenShareRotLeft small_perm small_rkg 2 5 small_crp small_world) ! 0
     \<noteq> digit_formula 1 small_bc (small_noise 0)
          (prepared small_perm small_bc 5 (cell small_world 2))
          (cell small_world 3) (cell small_world 2) 0"
  proof
    assume "share_polys (GenShareRotLeft small_perm small_rkg 2 5 small_crp small_world) ! 0
     = digit_formula 1 small_bc (small_noise 0)
          (prepared small_perm small_bc 5 (cell small_world 2))
          (cell small_world 3) (cell small_world 2) 0"
    then have "(19::u64) = 36" using v small_digit_values(4) by simp
    then show False by simp
  qed
  then show ?thesis using v small_digit_values(4) by simp
qed

theorem share_digits_witness:
  "Modulus (ContextKeys (bfvContext small_rkg))
      = Modulus (ContextQ (bfvContext small_rkg)) @ KeySwitchPrimes (bfvContext small_rkg) \<and>
   list_all (\<lambda>q. 0 < q \<and> unat q < 2 ^ 63 \<and> odd (unat q))
     (Modulus (ContextKeys (bfvContext small_rkg))) \<and>
   Beta (bfvContext small_rkg) * Alpha (bfvContext small_rkg)
      \<le> length (Modulus (ContextKeys (bfvContext small_rkg))) \<and>
   length small_crp = Beta (bfvContext small_rkg) \<and>
   (\<exists>evakey w'. GenShareRotLeft small_perm small_rkg 2 5 small_crp small_world = Inr (evakey, w') \<and>
      length evakey = 2 \<and>
      cell w' 1 = prepared small_perm small_bc 5 (cell small_world 2) \<and>
      cell w' (evakey ! 0)
        = digit_formula (2 ^ 64) small_bc (small_noise 0) (cell w' 1)
            (cell small_world 3) (cell small_world 2) 0 \<and>
      cell w' 1 ! 1 ! 0 = 65 \<and> cell w' (evakey ! 0) ! 1 ! 0 = 19) \<and>
   (\<exists>evakey w'. GenShareRotRight small_perm small_rkg 2 5 small_crp small_world = Inr (evakey, w') \<and>
      length evakey = 2 \<and>
      cell w' 1 = prepared small_perm small_bc 13 (cell small_world 2) \<and>
      cell w' (evakey ! 0)
        = digit_formula (2 ^ 64) small_bc (small_noise 0) (cell w' 1)
            (cell small_world 3) (cell small_world 2) 0 \<and>
      cell w' 1 ! 1 ! 0 = 30 \<and> cell w' (evakey ! 0) ! 1 ! 0 = 18) \<and>
   (\<exists>evakey w'. GenShareRotRow small_perm small_rkg 2 small_crp small_world = Inr (evakey, w') \<and>
      length evakey = 2 \<and>
      cell w' 1 = prepared small_perm small_bc 15 (cell small_world 2) \<and>
      cell w' (evakey ! 0)
        = digit_formula (2 ^ 64) small_bc (small_noise 0) (cell w' 1)
            (cell small_world 3) (cell small_world 2) 0 \<and>
      cell w' 1 ! 1 ! 0 = 54 \<and> cell w' (evakey ! 0) ! 1 ! 0 = 27)"
proof -
  have t: "unat ((5::u64) AND (drop_bit 1 (ctxN (ContextKeys (bfvContext small_rkg))) - 1))
             < length (galElRotColLeft small_rkg)"
     "unat ((5::u64) AND (drop_bit 1 (ctxN (ContextKeys (bfvContext small_rkg))) - 1))
             < length (galElRotColRight small_rkg)"
    unfolding small_tables by (simp_all add: small_context)
  note th = share_digits [OF small_hyps t, unfolded small_tables]
  have z: "(0::nat) < Beta (bfvContext small_rkg)" by (simp add: small_context)
  have g: "galElRotColLeft small_rkg ! 1 = 5" "galElRotColRight small_rkg ! 1 = 13"
    "galElRotRow small_rkg = 15" "bfvContext small_rkg = small_bc" "polypool small_rkg = 1"
    "GaussianSampler small_bc (drawn small_world + 0) = small_noise 0"
    "cell small_world (small_crp ! 0) = cell small_world 3" "Beta small_bc = 2"
    by (simp_all add: small_context small_world_def small_crp_def)
  have L: "\<exists>evakey w'. GenShareRotLeft small_perm small_rkg 2 5 small_crp small_world = Inr (evakey, w') \<and>
      length evakey = 2 \<and>
      cell w' 1 = prepared small_perm small_bc 5 (cell small_world 2) \<and>
      cell w' (evakey ! 0)
        = digit_formula (2 ^ 64) small_bc (small_noise 0) (cell w' 1)
            (cell small_world 3) (cell small_world 2) 0 \<and>
      cell w' 1 ! 1 ! 0 = 65 \<and> cell w' (evakey ! 0) ! 1 ! 0 = 19"
  proof -
    obtain evakey w' where a:
        "GenShareRotLeft small_perm small_rkg 2 5 small_crp small_world = Inr (evakey, w')"
        "length evakey = 2"
        "cell w' 1 = prepared small_perm small_bc 5 (cell small_world 2)"
      and d: "\<forall>i<2. reduced (ContextKeys small_bc) (cell w' (evakey ! i)) \<and>
          cell w' (evakey ! i)
            = digit_formula (2 ^ 64) small_bc (GaussianSampler small_bc (drawn small_world + i))
                (cell w' 1) (cell small_world (small_crp ! i)) (cell small_world 2) i"
      using th [THEN conjunct1] unfolding g by blast
    have c: "cell w' (evakey ! 0)
        = digit_formula (2 ^ 64) small_bc (small_noise 0) (cell w' 1)
            (cell small_world 3) (cell small_world 2) 0"
      using d [rule_format, of 0] unfolding g by simp
    have "cell w' 1 ! 1 ! 0 = 65" "cell w' (evakey ! 0) ! 1 ! 0 = 19"
      unfolding c unfolding a(3) by (rule small_prepared small_digit_values)+
    then show ?thesis using a c by blast
  qed
  have R: "\<exists>evakey w'. GenShareRotRight small_perm small_rkg 2 5 small_crp small_world = Inr (evakey, w') \<and>
      length evakey = 2 \<and>
      cell w' 1 = prepared small_perm small_bc 13 (cell small_world 2) \<and>
      cell w' (evakey ! 0)
        = digit_formula (2 ^ 64) small_bc (small_noise 0) (cell w' 1)
            (cell small_world 3) (cell small_world 2) 0 \<and>
      cell w' 1 ! 1 ! 0 = 30 \<and> cell w' (evakey ! 0) ! 1 ! 0 = 18"
  proof -
    obtain evakey w' where a:
        "GenShareRotRight small_perm small_rkg 2 5 small_crp small_world = Inr (evakey, w')"
        "length evakey = 2"
        "cell w' 1 = prepared small_perm small_bc 13 (cell small_world 2)"
      and d: "\<forall>i<2. reduced (ContextKeys small_bc) (cell w' (evakey ! i)) \<and>
          cell w' (evakey ! i)
            = digit_formula (2 ^ 64) small_bc (GaussianSampler small_bc (drawn small_world + i))
                (cell w' 1) (cell small_world (small_crp ! i)) (cell small_world 2) i"
      using th [THEN conjunct2, THEN conjunct1] unfolding g by blast
    have c: "cell w' (evakey ! 0)
        = digit_formula (2 ^ 64) small_bc (small_noise 0) (cell w' 1)
            (cell small_world 3) (cell small_world 2) 0"
      using d [rule_format, of 0] unfolding g by simp
    have "cell w' 1 ! 1 ! 0 = 30" "cell w' (evakey ! 0) ! 1 ! 0 = 18"
      unfolding c unfolding a(3) by (rule small_prepared small_digit_values)+
    then show ?thesis using a c by blast
  qed
  have W: "\<exists>evakey w'. GenShareRotRow small_perm small_rkg 2 small_crp small_world = Inr (evakey, w') \<and>
      length evakey = 2 \<and>
      cell w' 1 = prepared small_perm small_bc 15 (cell small_world 2) \<and>
      cell w' (evakey ! 0)
        = digit_formula (2 ^ 64) small_bc (small_noise 0) (cell w' 1)
            (cell small_world 3) (cell small_world 2) 0 \<and>
      cell w' 1 ! 1 ! 0 = 54 \<and> cell w' (evakey ! 0) ! 1 ! 0 = 27"
  proof -
    obtain evakey w' where a:
        "GenShareRotRow small_perm small_rkg 2 small_crp small_world = Inr (evakey, w')"
        "length evakey = 2"
        "cell w' 1 = prepared small_perm small_bc 15 (cell small_world 2)"
      and d: "\<forall>i<2. reduced (ContextKeys small_bc) (cell w' (evakey ! i)) \<and>
          cell w' (evakey ! i)
            = digit_formula (2 ^ 64) small_bc (GaussianSampler small_bc (drawn small_world + i))
                (cell w' 1) (cell small_world (small_crp ! i)) (cell small_world 2) i"
      using th [THEN conjunct2, THEN conjunct2] unfolding g by blast
    have c: "cell w' (evakey ! 0)
        = digit_formula (2 ^ 64) small_bc (small_noise 0) (cell w' 1)
            (cell small_world 3) (cell small_world 2) 0"
      using d [rule_format, of 0] unfolding g by simp
    have "cell w' 1 ! 1 ! 0 = 54" "cell w' (evakey ! 0) ! 1 ! 0 = 27"
      unfolding c unfolding a(3) by (rule small_prepared small_digit_values)+
    then show ?thesis using a c by blast
  qed
  have h: "list_all (\<lambda>q. 0 < q \<and> unat q < 2 ^ 63 \<and> odd (unat q))
     (Modulus (ContextKeys (bfvContext small_rkg)))"
    using small_hyps(2) by (simp only: list_all_iff)
  show ?thesis using small_hyps(1,3,11) h L R W by blast
qed

subsection \<open>Rotation amounts select the table entry and the slot\<close>

text \<open>
  Claim C5. For a ring degree \<open>N = 2^m\<close> (\<open>1 \<le> m < 64\<close>) and tables of \<open>N/2\<close> entries, the
  mask \<open>k & (N/2 - 1)\<close> is \<open>k mod N/2\<close>; \<open>GenShareRotLeft\<close> and \<open>GenShareRotRight\<close> run the
  common body on entry \<open>k mod N/2\<close> of their table, \<open>AggregateRotColL\<close> and
  \<open>AggregateRotColR\<close> store the aggregated key under the key \<open>k mod N/2\<close> of their map, and
  all four give the same result for the amounts \<open>k\<close> and \<open>k + N/2\<close>, on the same world
  (store, sampler position and tape), also where \<open>k + N/2\<close> wraps around.
\<close>

theorem rotation_amount_masking:
  assumes N: "ctxN (ContextKeys (bfvContext rkg)) = 2 ^ m" "bfvN (bfvContext rkg) = 2 ^ m"
      "1 \<le> m" "m < 64"
    and tables: "length (galElRotColLeft rkg) = unat (bfvN (bfvContext rkg)) div 2"
      "length (galElRotColRight rkg) = unat (bfvN (bfvContext rkg)) div 2"
  shows "unat (k AND (drop_bit 1 (bfvN (bfvContext rkg)) - 1))
           = unat k mod (unat (bfvN (bfvContext rkg)) div 2)
       \<and> GenShareRotLeft perm rkg sk k crp w
           = rotShare perm rkg sk
               (galElRotColLeft rkg ! (unat k mod (unat (bfvN (bfvContext rkg)) div 2))) crp w
       \<and> GenShareRotRight perm rkg sk k crp w
           = rotShare perm rkg sk
               (galElRotColRight rkg ! (unat k mod (unat (bfvN (bfvContext rkg)) div 2))) crp w
       \<and> AggregateRotColL rkg samples k crp w
           = bindE (aggregate rkg samples crp w) (\<lambda>(r, w1).
               Inr (rkg\<lparr>rot_col_L :=
                      AList.update (word_of_nat (unat k mod (unat (bfvN (bfvContext rkg)) div 2)))
                        r (rot_col_L rkg)\<rparr>, w1))
       \<and> AggregateRotColR rkg samples k crp w
           = bindE (aggregate rkg samples crp w) (\<lambda>(r, w1).
               Inr (rkg\<lparr>rot_col_R :=
                      AList.update (word_of_nat (unat k mod (unat (bfvN (bfvContext rkg)) div 2)))
                        r (rot_col_R rkg)\<rparr>, w1))
       \<and> GenShareRotLeft perm rkg sk (k + drop_bit 1 (bfvN (bfvContext rkg))) crp w
           = GenShareRotLeft perm rkg sk k crp w
       \<and> GenShareRotRight perm rkg sk (k + drop_bit 1 (bfvN (bfvContext rkg))) crp w
           = GenShareRotRight perm rkg sk k crp w
       \<and> AggregateRotColL rkg samples (k + drop_bit 1 (bfvN (bfvContext rkg))) crp w
           = AggregateRotColL rkg samples k crp w
       \<and> AggregateRotColR rkg samples (k + drop_bit 1 (bfvN (bfvContext rkg))) crp w
           = AggregateRotColR rkg samples k crp w"
proof -
  let ?h = "unat (bfvN (bfvContext rkg)) div 2"
  let ?msk = "drop_bit 1 (bfvN (bfvContext rkg)) - 1"
  have u: "unat (k AND ?msk) = unat k mod ?h"
    using N(4) by (simp only: N(2) mask_is_mod)
  have "unat ((2::u64) ^ m) = 2 ^ m" using unat_two_power [OF N(4)] .
  moreover have "(2::nat) ^ m div 2 = 2 ^ (m - 1)" using N(3) by (cases m) simp_all
  ultimately have h0: "0 < ?h" by (simp add: N(2))
  then have lt: "unat k mod ?h < ?h" by simp
  have "word_of_nat (unat (k AND ?msk)) = k AND ?msk" by simp
  then have wk: "k AND ?msk = word_of_nat (unat k mod ?h)" by (simp only: u)
  have cm: "drop_bit 1 (ctxN (ContextKeys (bfvContext rkg))) - 1 = ?msk"
    by (simp only: N(1,2))
  have l: "GenShareRotLeft perm rkg sk k crp w
           = rotShare perm rkg sk (galElRotColLeft rkg ! (unat k mod ?h)) crp w"
    unfolding GenShareRotLeft_def Let_def cm u using lt tables(1) by simp
  have r: "GenShareRotRight perm rkg sk k crp w
           = rotShare perm rkg sk (galElRotColRight rkg ! (unat k mod ?h)) crp w"
    unfolding GenShareRotRight_def Let_def cm u using lt tables(2) by simp
  have al: "AggregateRotColL rkg samples k crp w
           = bindE (aggregate rkg samples crp w) (\<lambda>(r, w1).
               Inr (rkg\<lparr>rot_col_L := AList.update (word_of_nat (unat k mod ?h))
                        r (rot_col_L rkg)\<rparr>, w1))"
    unfolding AggregateRotColL_def Let_def wk ..
  have ar: "AggregateRotColR rkg samples k crp w
           = bindE (aggregate rkg samples crp w) (\<lambda>(r, w1).
               Inr (rkg\<lparr>rot_col_R := AList.update (word_of_nat (unat k mod ?h))
                        r (rot_col_R rkg)\<rparr>, w1))"
    unfolding AggregateRotColR_def Let_def wk ..
  have inv: "GenShareRotLeft perm rkg sk (k + drop_bit 1 (bfvN (bfvContext rkg))) crp w
           = GenShareRotLeft perm rkg sk k crp w"
    "GenShareRotRight perm rkg sk (k + drop_bit 1 (bfvN (bfvContext rkg))) crp w
           = GenShareRotRight perm rkg sk k crp w"
    "AggregateRotColL rkg samples (k + drop_bit 1 (bfvN (bfvContext rkg))) crp w
           = AggregateRotColL rkg samples k crp w"
    "AggregateRotColR rkg samples (k + drop_bit 1 (bfvN (bfvContext rkg))) crp w
           = AggregateRotColR rkg samples k crp w"
    using N(4)
    by (simp_all only: GenShareRotLeft_def GenShareRotRight_def AggregateRotColL_def
      AggregateRotColR_def N(1,2) mask_shift_invariant)
  show ?thesis using u l r al ar inv by (intro conjI)
qed

lemma small_agg_hyps:
  "small_samples \<noteq> []"
  "\<forall>k<length small_samples. \<forall>d<Beta (bfvContext small_rkg). d < length (small_samples ! k) \<and>
       valid small_world (small_samples ! k ! d) \<and>
       shaped (ContextKeys (bfvContext small_rkg)) (cell small_world (small_samples ! k ! d))"
  "\<forall>d<Beta (bfvContext small_rkg). valid small_world (small_crp ! d) \<and>
       shaped (ContextKeys (bfvContext small_rkg)) (cell small_world (small_crp ! d))"
proof -
  show "small_samples \<noteq> []" by (simp add: small_samples_def)
  show "\<forall>k<length small_samples. \<forall>d<Beta (bfvContext small_rkg). d < length (small_samples ! k) \<and>
       valid small_world (small_samples ! k ! d) \<and>
       shaped (ContextKeys (bfvContext small_rkg)) (cell small_world (small_samples ! k ! d))"
    using small_shapes
    by (simp add: small_context small_samples_def all_less_2 All_less_Suc)
  show "\<forall>d<Beta (bfvContext small_rkg). valid small_world (small_crp ! d) \<and>
       shaped (ContextKeys (bfvContext small_rkg)) (cell small_world (small_crp ! d))"
    using small_hyps(12) by simp
qed

theorem rotation_amount_masking_witness:
  "ctxN (ContextKeys (bfvContext small_rkg)) = 2 ^ 3 \<and> bfvN (bfvContext small_rkg) = 2 ^ 3 \<and>
   (1::nat) \<le> 3 \<and> (3::nat) < 64 \<and>
   length (galElRotColLeft small_rkg) = unat (bfvN (bfvContext small_rkg)) div 2 \<and>
   length (galElRotColRight small_rkg) = unat (bfvN (bfvContext small_rkg)) div 2 \<and>
   unat ((9::u64) AND (drop_bit 1 (bfvN (bfvContext small_rkg)) - 1)) = 1 \<and>
   GenShareRotLeft small_perm small_rkg 2 9 small_crp small_world
     = rotShare small_perm small_rkg 2 5 small_crp small_world \<and>
   GenShareRotRight small_perm small_rkg 2 9 small_crp small_world
     = rotShare small_perm small_rkg 2 13 small_crp small_world \<and>
   GenShareRotLeft small_perm small_rkg 2 9 small_crp small_world
     = GenShareRotLeft small_perm small_rkg 2 5 small_crp small_world \<and>
   GenShareRotRight small_perm small_rkg 2 9 small_crp small_world
     = GenShareRotRight small_perm small_rkg 2 5 small_crp small_world \<and>
   AggregateRotColL small_rkg small_samples 9 small_crp small_world
     = AggregateRotColL small_rkg small_samples 5 small_crp small_world \<and>
   AggregateRotColR small_rkg small_samples 9 small_crp small_world
     = AggregateRotColR small_rkg small_samples 5 small_crp small_world \<and>
   (\<exists>rkg' w'. AggregateRotColL small_rkg small_samples 9 small_crp small_world = Inr (rkg', w') \<and>
      rot_col_L rkg' = [(1, [(9, 10), (11, 12)])] \<and> rot_col_R rkg' = []) \<and>
   (\<exists>rkg' w'. AggregateRotColR small_rkg small_samples 9 small_crp small_world = Inr (rkg', w') \<and>
      rot_col_R rkg' = [(1, [(9, 10), (11, 12)])] \<and> rot_col_L rkg' = [])"
proof -
  have h: "ctxN (ContextKeys (bfvContext small_rkg)) = 2 ^ 3" "bfvN (bfvContext small_rkg) = 2 ^ 3"
      "(1::nat) \<le> 3" "(3::nat) < 64"
      "length (galElRotColLeft small_rkg) = unat (bfvN (bfvContext small_rkg)) div 2"
      "length (galElRotColRight small_rkg) = unat (bfvN (bfvContext small_rkg)) div 2"
    by (simp_all add: small_context)
  note th = rotation_amount_masking [OF h, of _ small_perm 2 small_crp small_world small_samples]
  have five: "(5::u64) + drop_bit 1 (bfvN (bfvContext small_rkg)) = 9"
    by (simp add: small_context)
  have v: "unat (9::u64) mod (unat (bfvN (bfvContext small_rkg)) div 2) = 1"
    "galElRotColLeft small_rkg ! 1 = 5" "galElRotColRight small_rkg ! 1 = 13"
    by (simp_all add: small_context)
  have up: "[0..<Beta (bfvContext small_rkg)] = [0, 1]"
    by (simp add: small_context numeral_2_eq_2)
  have le: "Beta (bfvContext small_rkg) \<le> length small_crp"
    by (simp add: small_context small_crp_def)
  have hl: "length (heap small_world) = 8" by (simp add: small_world_def)
  have agg: "\<exists>w'. aggregate small_rkg small_samples small_crp small_world
      = Inr ([(9, 10), (11, 12)], w')"
    unfolding aggregate_run [OF small_agg_hyps(1,2) le small_agg_hyps(3)] up hl by simp
  have 1: "unat ((9::u64) AND (drop_bit 1 (bfvN (bfvContext small_rkg)) - 1)) = 1"
    using th [of 9] unfolding v by blast
  have 2: "GenShareRotLeft small_perm small_rkg 2 9 small_crp small_world
     = rotShare small_perm small_rkg 2 5 small_crp small_world"
    "GenShareRotRight small_perm small_rkg 2 9 small_crp small_world
     = rotShare small_perm small_rkg 2 13 small_crp small_world"
    using th [of 9] unfolding v by blast+
  have 3: "GenShareRotLeft small_perm small_rkg 2 9 small_crp small_world
     = GenShareRotLeft small_perm small_rkg 2 5 small_crp small_world"
    "GenShareRotRight small_perm small_rkg 2 9 small_crp small_world
     = GenShareRotRight small_perm small_rkg 2 5 small_crp small_world"
    "AggregateRotColL small_rkg small_samples 9 small_crp small_world
     = AggregateRotColL small_rkg small_samples 5 small_crp small_world"
    "AggregateRotColR small_rkg small_samples 9 small_crp small_world
     = AggregateRotColR small_rkg small_samples 5 small_crp small_world"
    using th [of 5] unfolding five by blast+
  have 4: "AggregateRotColL small_rkg small_samples 9 small_crp small_world
           = bindE (aggregate small_rkg small_samples small_crp small_world) (\<lambda>(r, w1).
               Inr (small_rkg\<lparr>rot_col_L := AList.update (word_of_nat 1) r (rot_col_L small_rkg)\<rparr>, w1))"
    "AggregateRotColR small_rkg small_samples 9 small_crp small_world
           = bindE (aggregate small_rkg small_samples small_crp small_world) (\<lambda>(r, w1).
               Inr (small_rkg\<lparr>rot_col_R := AList.update (word_of_nat 1) r (rot_col_R small_rkg)\<rparr>, w1))"
    using th [of 9] unfolding v by blast+
  have 5: "\<exists>rkg' w'. AggregateRotColL small_rkg small_samples 9 small_crp small_world = Inr (rkg', w') \<and>
      rot_col_L rkg' = [(1, [(9, 10), (11, 12)])] \<and> rot_col_R rkg' = []"
    unfolding 4 using agg by (auto simp: small_rkg_def)
  have 6: "\<exists>rkg' w'. AggregateRotColR small_rkg small_samples 9 small_crp small_world = Inr (rkg', w') \<and>
      rot_col_R rkg' = [(1, [(9, 10), (11, 12)])] \<and> rot_col_L rkg' = []"
    unfolding 4 using agg by (auto simp: small_rkg_def)
  show ?thesis using h 1 2 3 5 6 by (intro conjI)
qed

subsection \<open>Aggregation with large primes\<close>

lemma rep15: "replicate 15 x = [x, x, x, x, x, x, x, x, x, x, x, x, x, x, x]"
  by (simp add: numeral_eq_Suc)

lemma wide_acc:
  "accC 0x1fffffffffe00001 1 0x1fffffffffe00000 (replicate 15 0x1fffffffffe00000)
     = 2305843009194819577"
  unfolding rep15 by (simp add: AddNoModC_def ReduceC_def)

lemma wide_context:
  "bfvContext wide_rkg = wide_bc" "ContextKeys wide_bc = wide_keys" "Beta wide_bc = 1"
  "ctxN wide_keys = 2" "Modulus wide_keys = [0x1fffffffffe00001, 0x1fffffffffc80001]"
  by (simp_all add: wide_rkg_def wide_bc_def wide_keys_def)

lemma wide_share_ok: "shaped wide_keys wide_share" "reduced wide_keys wide_share"
  by (simp_all add: wide_share_def wide_keys_def shaped_def reduced_def)

lemma wide_ps:
  "map (\<lambda>s. cell wide_world (s ! 0)) wide_samples = replicate 16 wide_share"
  by (simp add: wide_samples_def wide_world_def cell_def nth_append eval_nat_numeral)

lemma wide_run:
  "aggregate wide_rkg wide_samples wide_crp wide_world
     = Inr ([(19, 20)],
         wide_world\<lparr>heap := heap wide_world @
            [summed wide_keys (replicate 16 wide_share),
             rows1 MFormC wide_keys (cell wide_world 17)]\<rparr>)"
proof -
  have ne: "wide_samples \<noteq> []" by (simp add: wide_samples_def)
  have "\<forall>s \<in> set wide_samples. 0 < length s \<and> valid wide_world (s ! 0) \<and>
      shaped wide_keys (cell wide_world (s ! 0))"
    using wide_share_ok(1)
    by (simp add: wide_samples_def wide_world_def valid_def cell_def nth_append eval_nat_numeral)
  then have smp: "\<forall>k<length wide_samples. \<forall>d<Beta (bfvContext wide_rkg).
      d < length (wide_samples ! k) \<and> valid wide_world (wide_samples ! k ! d) \<and>
      shaped (ContextKeys (bfvContext wide_rkg)) (cell wide_world (wide_samples ! k ! d))"
    by (simp add: wide_context)
  have le: "Beta (bfvContext wide_rkg) \<le> length wide_crp"
    by (simp add: wide_context wide_crp_def)
  have crp: "\<forall>d<Beta (bfvContext wide_rkg). valid wide_world (wide_crp ! d) \<and>
      shaped (ContextKeys (bfvContext wide_rkg)) (cell wide_world (wide_crp ! d))"
    by (simp add: wide_context wide_crp_def wide_world_def valid_def cell_def nth_append
          shaped_def wide_keys_def)
  have hl: "length (heap wide_world) = 18" by (simp add: wide_world_def)
  show ?thesis
    unfolding aggregate_run [OF ne smp le crp]
    by (simp add: wide_context wide_ps hl wide_crp_def)
qed

text \<open>
  Claim C3 does not hold of the code for primes above \<open>2^64 / 9\<close>. With the prime
  \<open>q = 0x1fffffffffe00001\<close> of 61 bits and sixteen parties whose first coefficient is
  \<open>q - 1\<close>, the accumulator is reduced after the eighth share and then takes eight more
  additions: it would hold \<open>9 q - 16\<close>, which does not fit 64 bits. \<open>aggregate\<close> returns
  \<open>2305843009194819577\<close>; the sum that reduces after every addition is
  \<open>q - 16 = 2305843009211596785\<close>. Under \<open>9 q \<le> 2^64\<close> the two agree
  (lemma \<open>aggregate_sums\<close>).
\<close>

theorem aggregate_wraps:
  "key_b (aggregate wide_rkg wide_samples wide_crp wide_world) ! 0 ! 0 ! 0
     = 2305843009194819577 \<and>
   naive_sum wide_keys (replicate 16 wide_share) ! 0 ! 0 = 2305843009211596785 \<and>
   key_b (aggregate wide_rkg wide_samples wide_crp wide_world) ! 0
     \<noteq> naive_sum wide_keys (replicate 16 wide_share)"
proof -
  have kb: "key_b (aggregate wide_rkg wide_samples wide_crp wide_world) ! 0
      = summed wide_keys (replicate 16 wide_share)"
    unfolding wide_run by (simp add: key_b_def cell_def wide_world_def nth_append)
  have l: "0 < length (Modulus wide_keys)" "0 < unat (ctxN wide_keys)"
    by (simp_all add: wide_context)
  have sh: "\<forall>x \<in> set (replicate 15 wide_share). shaped wide_keys x"
    using wide_share_ok(1) by simp
  have "summed wide_keys (replicate 16 wide_share)
      = accumulate wide_keys 1 wide_share (replicate 15 wide_share)"
    by (simp add: summed_def)
  then have "summed wide_keys (replicate 16 wide_share) ! 0 ! 0
      = accC (Modulus wide_keys ! 0) 1 (wide_share ! 0 ! 0)
          (map (\<lambda>x. x ! 0 ! 0) (replicate 15 wide_share))"
    using accumulate_coeff [OF l wide_share_ok(1) sh] by simp
  also have "\<dots> = 2305843009194819577"
    using wide_acc by (simp add: wide_context wide_share_def)
  finally have a: "key_b (aggregate wide_rkg wide_samples wide_crp wide_world) ! 0 ! 0 ! 0
      = 2305843009194819577"
    unfolding kb .
  have ne: "replicate 16 wide_share \<noteq> []" by simp
  have sr: "\<forall>p \<in> set (replicate 16 wide_share). shaped wide_keys p \<and> reduced wide_keys p"
    using wide_share_ok by simp
  have q: "2 * unat (Modulus wide_keys ! 0) \<le> 2 ^ 64" by (simp add: wide_context)
  have "unat (naive_sum wide_keys (replicate 16 wide_share) ! 0 ! 0)
      = sum_list (map (\<lambda>p. unat (p ! 0 ! 0)) (replicate 16 wide_share))
          mod unat (Modulus wide_keys ! 0)"
    by (rule naive_sum_coeff [OF ne sr q l])
  also have "\<dots> = unat (2305843009211596785 :: u64)"
    by (simp add: wide_context wide_share_def sum_list_replicate)
  finally have b: "naive_sum wide_keys (replicate 16 wide_share) ! 0 ! 0 = 2305843009211596785"
    by (rule unsigned_word_eqI)
  have "key_b (aggregate wide_rkg wide_samples wide_crp wide_world) ! 0
     \<noteq> naive_sum wide_keys (replicate 16 wide_share)"
  proof
    assume "key_b (aggregate wide_rkg wide_samples wide_crp wide_world) ! 0
       = naive_sum wide_keys (replicate 16 wide_share)"
    then have "(2305843009194819577 :: u64) = 2305843009211596785" using a b by simp
    then show False by simp
  qed
  then show ?thesis using a b by simp
qed

subsection \<open>Fresh noise\<close>

text \<open>
  Claim C8. Each call of \<open>GenShareRotLeft\<close>, \<open>GenShareRotRight\<close> or \<open>GenShareRotRow\<close> takes
  \<open>Beta\<close> new draws from the sampler, one for each digit. Two successive calls with the same
  secret share, rotation amount and common random polynomial draw at the positions
  \<open>drawn w + i\<close> and \<open>drawn w + Beta + i\<close> of the tape; wherever these two draws differ,
  digit \<open>i\<close> of the second share differs from digit \<open>i\<close> of the first. The primes are odd
  and below \<open>2^63\<close>, the noise is reduced.
\<close>

theorem fresh_noise:
  assumes bound: "\<forall>q \<in> set (Modulus (ContextKeys (bfvContext rkg))).
                     0 < q \<and> unat q < 2 ^ 63 \<and> odd (unat q)"
    and range: "Beta (bfvContext rkg) * Alpha (bfvContext rkg)
                  \<le> length (Modulus (ContextKeys (bfvContext rkg)))"
    and noise: "\<forall>n. shaped (ContextKeys (bfvContext rkg)) (GaussianSampler (bfvContext rkg) n) \<and>
                    reduced (ContextKeys (bfvContext rkg)) (GaussianSampler (bfvContext rkg) n)"
    and perm: "\<forall>g a. shaped (ContextKeys (bfvContext rkg)) a
                 \<longrightarrow> shaped (ContextKeys (bfvContext rkg)) (perm g a)"
    and sk: "valid w sk" "shaped (ContextKeys (bfvContext rkg)) (cell w sk)" "sk \<noteq> polypool rkg"
    and pool: "valid w (polypool rkg)"
      "shaped (ContextKeys (bfvContext rkg)) (cell w (polypool rkg))"
    and crp: "length crp = Beta (bfvContext rkg)"
      "\<forall>i<Beta (bfvContext rkg). valid w (crp ! i) \<and> crp ! i \<noteq> polypool rkg \<and>
          shaped (ContextKeys (bfvContext rkg)) (cell w (crp ! i))"
    and tables:
      "unat (k AND (drop_bit 1 (ctxN (ContextKeys (bfvContext rkg))) - 1))
         < length (galElRotColLeft rkg)"
      "unat (k AND (drop_bit 1 (ctxN (ContextKeys (bfvContext rkg))) - 1))
         < length (galElRotColRight rkg)"
  shows "(\<exists>ev1 w1 ev2 w2.
            GenShareRotLeft perm rkg sk k crp w = Inr (ev1, w1) \<and>
            GenShareRotLeft perm rkg sk k crp w1 = Inr (ev2, w2) \<and>
            drawn w1 = drawn w + Beta (bfvContext rkg) \<and>
            drawn w2 = drawn w1 + Beta (bfvContext rkg) \<and>
            (\<forall>i<Beta (bfvContext rkg).
               GaussianSampler (bfvContext rkg) (drawn w + i)
                 \<noteq> GaussianSampler (bfvContext rkg) (drawn w1 + i)
               \<longrightarrow> cell w2 (ev1 ! i) \<noteq> cell w2 (ev2 ! i))) \<and>
         (\<exists>ev1 w1 ev2 w2.
            GenShareRotRight perm rkg sk k crp w = Inr (ev1, w1) \<and>
            GenShareRotRight perm rkg sk k crp w1 = Inr (ev2, w2) \<and>
            drawn w1 = drawn w + Beta (bfvContext rkg) \<and>
            drawn w2 = drawn w1 + Beta (bfvContext rkg) \<and>
            (\<forall>i<Beta (bfvContext rkg).
               GaussianSampler (bfvContext rkg) (drawn w + i)
                 \<noteq> GaussianSampler (bfvContext rkg) (drawn w1 + i)
               \<longrightarrow> cell w2 (ev1 ! i) \<noteq> cell w2 (ev2 ! i))) \<and>
         (\<exists>ev1 w1 ev2 w2.
            GenShareRotRow perm rkg sk crp w = Inr (ev1, w1) \<and>
            GenShareRotRow perm rkg sk crp w1 = Inr (ev2, w2) \<and>
            drawn w1 = drawn w + Beta (bfvContext rkg) \<and>
            drawn w2 = drawn w1 + Beta (bfvContext rkg) \<and>
            (\<forall>i<Beta (bfvContext rkg).
               GaussianSampler (bfvContext rkg) (drawn w + i)
                 \<noteq> GaussianSampler (bfvContext rkg) (drawn w1 + i)
               \<longrightarrow> cell w2 (ev1 ! i) \<noteq> cell w2 (ev2 ! i)))"
proof -
  let ?k = "unat (k AND (drop_bit 1 (ctxN (ContextKeys (bfvContext rkg))) - 1))"
  have l: "GenShareRotLeft perm rkg sk k crp v
      = rotShare perm rkg sk (galElRotColLeft rkg ! ?k) crp v" for v
    using tables(1) by (simp add: GenShareRotLeft_def Let_def del: drop_bit_Suc)
  have r: "GenShareRotRight perm rkg sk k crp v
      = rotShare perm rkg sk (galElRotColRight rkg ! ?k) crp v" for v
    using tables(2) by (simp add: GenShareRotRight_def Let_def del: drop_bit_Suc)
  have row: "GenShareRotRow perm rkg sk crp v = rotShare perm rkg sk (galElRotRow rkg) crp v" for v
    by (simp add: GenShareRotRow_def)
  show ?thesis
    unfolding l r row
    by (intro conjI rotShare_fresh [OF bound range noise perm sk pool crp])
qed

theorem fresh_noise_witness:
  "list_all (\<lambda>q. 0 < q \<and> unat q < 2 ^ 63 \<and> odd (unat q))
     (Modulus (ContextKeys (bfvContext small_rkg))) \<and>
   Beta (bfvContext small_rkg) * Alpha (bfvContext small_rkg)
      \<le> length (Modulus (ContextKeys (bfvContext small_rkg))) \<and>
   length small_crp = Beta (bfvContext small_rkg) \<and>
   (\<exists>ev1 w1 ev2 w2.
      GenShareRotLeft small_perm small_rkg 2 5 small_crp small_world = Inr (ev1, w1) \<and>
      GenShareRotLeft small_perm small_rkg 2 5 small_crp w1 = Inr (ev2, w2) \<and>
      drawn w1 = 2 \<and> drawn w2 = 4 \<and>
      cell w2 (ev1 ! 0) \<noteq> cell w2 (ev2 ! 0) \<and> cell w2 (ev1 ! 1) \<noteq> cell w2 (ev2 ! 1)) \<and>
   (\<exists>ev1 w1 ev2 w2.
      GenShareRotRow small_perm small_rkg 2 small_crp small_world = Inr (ev1, w1) \<and>
      GenShareRotRow small_perm small_rkg 2 small_crp w1 = Inr (ev2, w2) \<and>
      drawn w1 = 2 \<and> drawn w2 = 4 \<and>
      cell w2 (ev1 ! 0) \<noteq> cell w2 (ev2 ! 0) \<and> cell w2 (ev1 ! 1) \<noteq> cell w2 (ev2 ! 1))"
proof -
  have t: "unat ((5::u64) AND (drop_bit 1 (ctxN (ContextKeys (bfvContext small_rkg))) - 1))
             < length (galElRotColLeft small_rkg)"
     "unat ((5::u64) AND (drop_bit 1 (ctxN (ContextKeys (bfvContext small_rkg))) - 1))
             < length (galElRotColRight small_rkg)"
    unfolding small_tables by (simp_all add: small_context)
  note th = fresh_noise [OF small_hyps(2-12) t]
  have B: "Beta (bfvContext small_rkg) = 2" "drawn small_world = 0"
    by (simp_all add: small_context small_world_def)
  have n: "GaussianSampler (bfvContext small_rkg) (0 + 0)
              \<noteq> GaussianSampler (bfvContext small_rkg) (2 + 0)"
    "GaussianSampler (bfvContext small_rkg) (0 + 1)
              \<noteq> GaussianSampler (bfvContext small_rkg) (2 + 1)"
    by (simp_all add: small_context small_noise_def)
  have i: "(0::nat) < 2" "(1::nat) < 2" by simp_all
  have L: "\<exists>ev1 w1 ev2 w2.
      GenShareRotLeft small_perm small_rkg 2 5 small_crp small_world = Inr (ev1, w1) \<and>
      GenShareRotLeft small_perm small_rkg 2 5 small_crp w1 = Inr (ev2, w2) \<and>
      drawn w1 = 2 \<and> drawn w2 = 4 \<and>
      cell w2 (ev1 ! 0) \<noteq> cell w2 (ev2 ! 0) \<and> cell w2 (ev1 ! 1) \<noteq> cell w2 (ev2 ! 1)"
  proof -
    obtain ev1 w1 ev2 w2 where a:
        "GenShareRotLeft small_perm small_rkg 2 5 small_crp small_world = Inr (ev1, w1)"
        "GenShareRotLeft small_perm small_rkg 2 5 small_crp w1 = Inr (ev2, w2)"
        "drawn w1 = 0 + 2" "drawn w2 = drawn w1 + 2"
      and d: "\<forall>i<2. GaussianSampler (bfvContext small_rkg) (0 + i)
                 \<noteq> GaussianSampler (bfvContext small_rkg) (drawn w1 + i)
               \<longrightarrow> cell w2 (ev1 ! i) \<noteq> cell w2 (ev2 ! i)"
      using th [THEN conjunct1] unfolding B by blast
    have w1: "drawn w1 = 2" "drawn w2 = 4" using a(3,4) by simp_all
    have "cell w2 (ev1 ! 0) \<noteq> cell w2 (ev2 ! 0)" "cell w2 (ev1 ! 1) \<noteq> cell w2 (ev2 ! 1)"
      using d [rule_format, OF i(1)] d [rule_format, OF i(2)] n unfolding w1 by blast+
    then show ?thesis using a(1,2) w1 by blast
  qed
  have W: "\<exists>ev1 w1 ev2 w2.
      GenShareRotRow small_perm small_rkg 2 small_crp small_world = Inr (ev1, w1) \<and>
      GenShareRotRow small_perm small_rkg 2 small_crp w1 = Inr (ev2, w2) \<and>
      drawn w1 = 2 \<and> drawn w2 = 4 \<and>
      cell w2 (ev1 ! 0) \<noteq> cell w2 (ev2 ! 0) \<and> cell w2 (ev1 ! 1) \<noteq> cell w2 (ev2 ! 1)"
  proof -
    obtain ev1 w1 ev2 w2 where a:
        "GenShareRotRow small_perm small_rkg 2 small_crp small_world = Inr (ev1, w1)"
        "GenShareRotRow small_perm small_rkg 2 small_crp w1 = Inr (ev2, w2)"
        "drawn w1 = 0 + 2" "drawn w2 = drawn w1 + 2"
      and d: "\<forall>i<2. GaussianSampler (bfvContext small_rkg) (0 + i)
                 \<noteq> GaussianSampler (bfvContext small_rkg) (drawn w1 + i)
               \<longrightarrow> cell w2 (ev1 ! i) \<noteq> cell w2 (ev2 ! i)"
      using th [THEN conjunct2, THEN conjunct2] unfolding B by blast
    have w1: "drawn w1 = 2" "drawn w2 = 4" using a(3,4) by simp_all
    have "cell w2 (ev1 ! 0) \<noteq> cell w2 (ev2 ! 0)" "cell w2 (ev1 ! 1) \<noteq> cell w2 (ev2 ! 1)"
      using d [rule_format, OF i(1)] d [rule_format, OF i(2)] n unfolding w1 by blast+
    then show ?thesis using a(1,2) w1 by blast
  qed
  have h: "list_all (\<lambda>q. 0 < q \<and> unat q < 2 ^ 63 \<and> odd (unat q))
     (Modulus (ContextKeys (bfvContext small_rkg)))"
    using small_hyps(2) by (simp only: list_all_iff)
  show ?thesis using small_hyps(3,11) h L W by blast
qed

subsection \<open>What the operations leave untouched\<close>

lemma aggregate_frame:
  assumes ne: "samples \<noteq> []"
    and smp: "\<forall>n<length samples. \<forall>d<Beta (bfvContext rkg). d < length (samples ! n) \<and>
           valid w (samples ! n ! d) \<and>
           shaped (ContextKeys (bfvContext rkg)) (cell w (samples ! n ! d))"
    and crp: "length crp = Beta (bfvContext rkg)"
      "\<forall>i<Beta (bfvContext rkg). valid w (crp ! i) \<and>
          shaped (ContextKeys (bfvContext rkg)) (cell w (crp ! i))"
  shows "\<exists>receiver w'. aggregate rkg samples crp w = Inr (receiver, w') \<and>
           length receiver = Beta (bfvContext rkg) \<and>
           (\<forall>p. valid w p \<longrightarrow> valid w' p \<and> cell w' p = cell w p) \<and>
           (\<forall>i<Beta (bfvContext rkg).
               \<not> valid w (fst (receiver ! i)) \<and> \<not> valid w (snd (receiver ! i)) \<and>
               valid w' (fst (receiver ! i)) \<and> valid w' (snd (receiver ! i))) \<and>
           distinct (map fst receiver @ map snd receiver)"
proof -
  let ?c = "ContextKeys (bfvContext rkg)"
  let ?B = "Beta (bfvContext rkg)"
  let ?S = "\<lambda>k. summed ?c (map (\<lambda>s. cell w (s ! k)) samples)"
  let ?A = "\<lambda>k. rows1 MFormC ?c (cell w (crp ! k))"
  let ?recv = "map (\<lambda>k. (Suc (length (heap w) + 2 * k), Suc (Suc (length (heap w) + 2 * k)))) [0..<?B]"
  let ?w' = "w\<lparr>heap := heap w @ concat (map (\<lambda>k. [?S k, ?A k]) [0..<?B])\<rparr>"
  have run: "aggregate rkg samples crp w = Inr (?recv, ?w')"
    using aggregate_run [OF ne smp _ crp(2)] crp(1) by simp
  have len: "length ?recv = ?B" by simp
  have frame: "\<forall>p. valid w p \<longrightarrow> valid ?w' p \<and> cell ?w' p = cell w p" by simp
  have fresh: "\<forall>i<?B. \<not> valid w (fst (?recv ! i)) \<and> \<not> valid w (snd (?recv ! i)) \<and>
               valid ?w' (fst (?recv ! i)) \<and> valid ?w' (snd (?recv ! i))"
    by (simp add: valid_def)
  have inj1: "inj_on (\<lambda>k. Suc (length (heap w) + 2 * k)) A" for A by (simp add: inj_on_def)
  have inj2: "inj_on (\<lambda>k. Suc (Suc (length (heap w) + 2 * k))) A" for A by (simp add: inj_on_def)
  have dis: "Suc (length (heap w) + 2 * a) \<noteq> Suc (Suc (length (heap w) + 2 * b))" for a b
    by presburger
  have dist: "distinct (map fst ?recv @ map snd ?recv)"
    using dis by (auto simp: distinct_map comp_def inj1 inj2)
  show ?thesis using run len frame fresh dist by blast
qed

lemma rotShare_frame:
  assumes sk: "valid w sk" "shaped (ContextKeys (bfvContext rkg)) (cell w sk)" "sk \<noteq> polypool rkg"
    and pool: "valid w (polypool rkg)"
      "shaped (ContextKeys (bfvContext rkg)) (cell w (polypool rkg))"
    and perm: "\<forall>g a. shaped (ContextKeys (bfvContext rkg)) a
                 \<longrightarrow> shaped (ContextKeys (bfvContext rkg)) (perm g a)"
    and crp: "length crp = Beta (bfvContext rkg)"
      "\<forall>i<Beta (bfvContext rkg). valid w (crp ! i) \<and> crp ! i \<noteq> polypool rkg \<and>
          shaped (ContextKeys (bfvContext rkg)) (cell w (crp ! i))"
    and noise: "\<forall>n. shaped (ContextKeys (bfvContext rkg)) (GaussianSampler (bfvContext rkg) n)"
    and range: "Beta (bfvContext rkg) * Alpha (bfvContext rkg)
                  \<le> length (Modulus (ContextKeys (bfvContext rkg)))"
  shows "\<exists>evakey w'. rotShare perm rkg sk g crp w = Inr (evakey, w') \<and>
           length evakey = Beta (bfvContext rkg) \<and>
           cell w' sk = cell w sk \<and>
           (\<forall>p. valid w p \<and> p \<noteq> polypool rkg \<longrightarrow> valid w' p \<and> cell w' p = cell w p) \<and>
           (\<forall>i<Beta (bfvContext rkg). \<not> valid w (evakey ! i) \<and> valid w' (evakey ! i)) \<and>
           distinct evakey"
proof -
  let ?B = "Beta (bfvContext rkg)"
  have cl: "?B \<le> length crp" using crp(1) by simp
  obtain evakey w' where r: "rotShare perm rkg sk g crp w = Inr (evakey, w')"
    and len: "length evakey = ?B"
    and h: "length (heap w') = length (heap w) + ?B"
    and v: "\<forall>p. valid w p \<longrightarrow> valid w' p"
    and f: "\<forall>p. valid w p \<and> p \<noteq> polypool rkg \<longrightarrow> cell w' p = cell w p"
    and e: "\<forall>i<?B. evakey ! i = Suc (length (heap w) + i) \<and>
        cell w' (evakey ! i)
          = digit (bfvContext rkg) (prepared perm (bfvContext rkg) g (cell w sk)) (cell w sk)
              (cell w (crp ! i)) i (GaussianSampler (bfvContext rkg) (drawn w + i))"
    using rotShare_post [OF sk(1,2) pool sk(3) perm cl crp(2) noise range, of g] by blast
  have 1: "cell w' sk = cell w sk" using f sk by simp
  have 2: "\<forall>p. valid w p \<and> p \<noteq> polypool rkg \<longrightarrow> valid w' p \<and> cell w' p = cell w p"
    using v f by simp
  have 3: "\<forall>i<?B. \<not> valid w (evakey ! i) \<and> valid w' (evakey ! i)"
    using e h by (simp add: valid_def)
  have "evakey = map (\<lambda>i. Suc (length (heap w) + i)) [0..<?B]"
    using e len by (intro nth_equalityI) simp_all
  then have 4: "distinct evakey" by (simp add: distinct_map inj_on_def)
  show ?thesis using r len 1 2 3 4 by blast
qed

text \<open>
  Claim C10. \<open>aggregate\<close>, and with it the three keyed aggregations, leaves every polynomial
  of the store it is called on as it was: the shares and the common random polynomial are
  only read. The returned key is made of \<open>Beta\<close> pairs of new cells, all distinct and none
  of them in the store before, so it shares no polynomial with the inputs. Share generation
  through any of the three entry points leaves the secret share, and every other polynomial
  but the scratch polynomial, as it was, and returns \<open>Beta\<close> distinct new cells.
\<close>

theorem inputs_unmodified:
  assumes ne: "samples \<noteq> []"
    and smp: "\<forall>n<length samples. \<forall>d<Beta (bfvContext rkg). d < length (samples ! n) \<and>
           valid w (samples ! n ! d) \<and>
           shaped (ContextKeys (bfvContext rkg)) (cell w (samples ! n ! d))"
    and crp: "length crp = Beta (bfvContext rkg)"
      "\<forall>i<Beta (bfvContext rkg). valid w (crp ! i) \<and> crp ! i \<noteq> polypool rkg \<and>
          shaped (ContextKeys (bfvContext rkg)) (cell w (crp ! i))"
    and sk: "valid w sk" "shaped (ContextKeys (bfvContext rkg)) (cell w sk)" "sk \<noteq> polypool rkg"
    and pool: "valid w (polypool rkg)"
      "shaped (ContextKeys (bfvContext rkg)) (cell w (polypool rkg))"
    and perm: "\<forall>g a. shaped (ContextKeys (bfvContext rkg)) a
                 \<longrightarrow> shaped (ContextKeys (bfvContext rkg)) (perm g a)"
    and noise: "\<forall>n. shaped (ContextKeys (bfvContext rkg)) (GaussianSampler (bfvContext rkg) n)"
    and range: "Beta (bfvContext rkg) * Alpha (bfvContext rkg)
                  \<le> length (Modulus (ContextKeys (bfvContext rkg)))"
    and tables:
      "unat (k AND (drop_bit 1 (ctxN (ContextKeys (bfvContext rkg))) - 1))
         < length (galElRotColLeft rkg)"
      "unat (k AND (drop_bit 1 (ctxN (ContextKeys (bfvContext rkg))) - 1))
         < length (galElRotColRight rkg)"
  shows "(\<exists>receiver w'. aggregate rkg samples crp w = Inr (receiver, w') \<and>
           AggregateRotColL rkg samples k crp w
             = Inr (rkg\<lparr>rot_col_L := AList.update (k AND (drop_bit 1 (bfvN (bfvContext rkg)) - 1))
                                       receiver (rot_col_L rkg)\<rparr>, w') \<and>
           AggregateRotColR rkg samples k crp w
             = Inr (rkg\<lparr>rot_col_R := AList.update (k AND (drop_bit 1 (bfvN (bfvContext rkg)) - 1))
                                       receiver (rot_col_R rkg)\<rparr>, w') \<and>
           AggregateRotRow rkg samples crp w = Inr (rkg\<lparr>rot_row := Some receiver\<rparr>, w') \<and>
           length receiver = Beta (bfvContext rkg) \<and>
           (\<forall>p. valid w p \<longrightarrow> valid w' p \<and> cell w' p = cell w p) \<and>
           (\<forall>i<Beta (bfvContext rkg).
               \<not> valid w (fst (receiver ! i)) \<and> \<not> valid w (snd (receiver ! i)) \<and>
               valid w' (fst (receiver ! i)) \<and> valid w' (snd (receiver ! i))) \<and>
           distinct (map fst receiver @ map snd receiver)) \<and>
         (\<exists>evakey w'. GenShareRotLeft perm rkg sk k crp w = Inr (evakey, w') \<and>
           length evakey = Beta (bfvContext rkg) \<and>
           cell w' sk = cell w sk \<and>
           (\<forall>p. valid w p \<and> p \<noteq> polypool rkg \<longrightarrow> valid w' p \<and> cell w' p = cell w p) \<and>
           (\<forall>i<Beta (bfvContext rkg). \<not> valid w (evakey ! i) \<and> valid w' (evakey ! i)) \<and>
           distinct evakey) \<and>
         (\<exists>evakey w'. GenShareRotRight perm rkg sk k crp w = Inr (evakey, w') \<and>
           length evakey = Beta (bfvContext rkg) \<and>
           cell w' sk = cell w sk \<and>
           (\<forall>p. valid w p \<and> p \<noteq> polypool rkg \<longrightarrow> valid w' p \<and> cell w' p = cell w p) \<and>
           (\<forall>i<Beta (bfvContext rkg). \<not> valid w (evakey ! i) \<and> valid w' (evakey ! i)) \<and>
           distinct evakey) \<and>
         (\<exists>evakey w'. GenShareRotRow perm rkg sk crp w = Inr (evakey, w') \<and>
           length evakey = Beta (bfvContext rkg) \<and>
           cell w' sk = cell w sk \<and>
           (\<forall>p. valid w p \<and> p \<noteq> polypool rkg \<longrightarrow> valid w' p \<and> cell w' p = cell w p) \<and>
           (\<forall>i<Beta (bfvContext rkg). \<not> valid w (evakey ! i) \<and> valid w' (evakey ! i)) \<and>
           distinct evakey)"
proof -
  let ?k = "unat (k AND (drop_bit 1 (ctxN (ContextKeys (bfvContext rkg))) - 1))"
  have crp': "\<forall>i<Beta (bfvContext rkg). valid w (crp ! i) \<and>
          shaped (ContextKeys (bfvContext rkg)) (cell w (crp ! i))"
    using crp(2) by simp
  obtain receiver w' where a: "aggregate rkg samples crp w = Inr (receiver, w')"
    and b: "length receiver = Beta (bfvContext rkg)"
      "\<forall>p. valid w p \<longrightarrow> valid w' p \<and> cell w' p = cell w p"
      "\<forall>i<Beta (bfvContext rkg).
               \<not> valid w (fst (receiver ! i)) \<and> \<not> valid w (snd (receiver ! i)) \<and>
               valid w' (fst (receiver ! i)) \<and> valid w' (snd (receiver ! i))"
      "distinct (map fst receiver @ map snd receiver)"
    using aggregate_frame [OF ne smp crp(1) crp'] by blast
  have c: "AggregateRotColL rkg samples k crp w
             = Inr (rkg\<lparr>rot_col_L := AList.update (k AND (drop_bit 1 (bfvN (bfvContext rkg)) - 1))
                                       receiver (rot_col_L rkg)\<rparr>, w')"
    "AggregateRotColR rkg samples k crp w
             = Inr (rkg\<lparr>rot_col_R := AList.update (k AND (drop_bit 1 (bfvN (bfvContext rkg)) - 1))
                                       receiver (rot_col_R rkg)\<rparr>, w')"
    "AggregateRotRow rkg samples crp w = Inr (rkg\<lparr>rot_row := Some receiver\<rparr>, w')"
    unfolding AggregateRotColL_def AggregateRotColR_def AggregateRotRow_def Let_def a by simp_all
  have A: "\<exists>receiver w'. aggregate rkg samples crp w = Inr (receiver, w') \<and>
           AggregateRotColL rkg samples k crp w
             = Inr (rkg\<lparr>rot_col_L := AList.update (k AND (drop_bit 1 (bfvN (bfvContext rkg)) - 1))
                                       receiver (rot_col_L rkg)\<rparr>, w') \<and>
           AggregateRotColR rkg samples k crp w
             = Inr (rkg\<lparr>rot_col_R := AList.update (k AND (drop_bit 1 (bfvN (bfvContext rkg)) - 1))
                                       receiver (rot_col_R rkg)\<rparr>, w') \<and>
           AggregateRotRow rkg samples crp w = Inr (rkg\<lparr>rot_row := Some receiver\<rparr>, w') \<and>
           length receiver = Beta (bfvContext rkg) \<and>
           (\<forall>p. valid w p \<longrightarrow> valid w' p \<and> cell w' p = cell w p) \<and>
           (\<forall>i<Beta (bfvContext rkg).
               \<not> valid w (fst (receiver ! i)) \<and> \<not> valid w (snd (receiver ! i)) \<and>
               valid w' (fst (receiver ! i)) \<and> valid w' (snd (receiver ! i))) \<and>
           distinct (map fst receiver @ map snd receiver)"
    using a b c by blast
  have l: "GenShareRotLeft perm rkg sk k crp w
      = rotShare perm rkg sk (galElRotColLeft rkg ! ?k) crp w"
    using tables(1) by (simp add: GenShareRotLeft_def Let_def del: drop_bit_Suc)
  have r: "GenShareRotRight perm rkg sk k crp w
      = rotShare perm rkg sk (galElRotColRight rkg ! ?k) crp w"
    using tables(2) by (simp add: GenShareRotRight_def Let_def del: drop_bit_Suc)
  have row: "GenShareRotRow perm rkg sk crp w = rotShare perm rkg sk (galElRotRow rkg) crp w"
    by (simp add: GenShareRotRow_def)
  show ?thesis
    unfolding l r row
    by (intro conjI A rotShare_frame [OF sk pool perm crp noise range])
qed

theorem inputs_unmodified_witness:
  "small_samples \<noteq> [] \<and>
   length small_crp = Beta (bfvContext small_rkg) \<and>
   Beta (bfvContext small_rkg) * Alpha (bfvContext small_rkg)
      \<le> length (Modulus (ContextKeys (bfvContext small_rkg))) \<and>
   (\<exists>receiver w'. AggregateRotColL small_rkg small_samples 5 small_crp small_world
        = Inr (small_rkg\<lparr>rot_col_L := [(1, receiver)]\<rparr>, w') \<and>
      length receiver = 2 \<and>
      map (cell w') [1, 2, 3, 4, 5, 6, 7, 8] = heap small_world \<and>
      distinct (map fst receiver @ map snd receiver) \<and>
      list_all (\<lambda>(b, a). \<not> valid small_world b \<and> \<not> valid small_world a \<and>
                  valid w' b \<and> valid w' a) receiver) \<and>
   (\<exists>evakey w'. GenShareRotLeft small_perm small_rkg 2 5 small_crp small_world = Inr (evakey, w') \<and>
      length evakey = 2 \<and>
      map (cell w') [2, 3, 4, 5, 6, 7, 8] = tl (heap small_world) \<and>
      distinct evakey \<and>
      list_all (\<lambda>p. \<not> valid small_world p \<and> valid w' p) evakey)"
proof -
  have t: "unat ((5::u64) AND (drop_bit 1 (ctxN (ContextKeys (bfvContext small_rkg))) - 1))
             < length (galElRotColLeft small_rkg)"
     "unat ((5::u64) AND (drop_bit 1 (ctxN (ContextKeys (bfvContext small_rkg))) - 1))
             < length (galElRotColRight small_rkg)"
    unfolding small_tables by (simp_all add: small_context)
  have nz: "\<forall>n. shaped (ContextKeys (bfvContext small_rkg))
                  (GaussianSampler (bfvContext small_rkg) n)"
    using small_hyps(4) by simp
  note th = inputs_unmodified [OF small_agg_hyps(1,2) small_hyps(11,12) small_hyps(6-10)
      small_hyps(5) nz small_hyps(3) t]
  have B: "Beta (bfvContext small_rkg) = 2" "polypool small_rkg = 1"
    by (simp_all add: small_context)
  have v: "\<forall>p \<in> {1, 2, 3, 4, 5, 6, 7, 8}. valid small_world p" using small_shapes by simp
  have cells: "map (cell small_world) [1, 2, 3, 4, 5, 6, 7, 8] = heap small_world"
    by (simp add: small_world_def cell_def)
  have A: "\<exists>receiver w'. AggregateRotColL small_rkg small_samples 5 small_crp small_world
        = Inr (small_rkg\<lparr>rot_col_L := [(1, receiver)]\<rparr>, w') \<and>
      length receiver = 2 \<and>
      map (cell w') [1, 2, 3, 4, 5, 6, 7, 8] = heap small_world \<and>
      distinct (map fst receiver @ map snd receiver) \<and>
      list_all (\<lambda>(b, a). \<not> valid small_world b \<and> \<not> valid small_world a \<and>
                  valid w' b \<and> valid w' a) receiver"
  proof -
    obtain receiver w' where a:
        "AggregateRotColL small_rkg small_samples 5 small_crp small_world
             = Inr (small_rkg\<lparr>rot_col_L :=
                  AList.update (5 AND (drop_bit 1 (bfvN (bfvContext small_rkg)) - 1))
                    receiver (rot_col_L small_rkg)\<rparr>, w')"
        "length receiver = 2"
        "distinct (map fst receiver @ map snd receiver)"
      and f: "\<forall>p. valid small_world p \<longrightarrow> valid w' p \<and> cell w' p = cell small_world p"
      and n: "\<forall>i<2. \<not> valid small_world (fst (receiver ! i)) \<and>
               \<not> valid small_world (snd (receiver ! i)) \<and>
               valid w' (fst (receiver ! i)) \<and> valid w' (snd (receiver ! i))"
      using th [THEN conjunct1] unfolding B by blast
    have k: "(5::u64) AND (drop_bit 1 (bfvN (bfvContext small_rkg)) - 1) = 1"
      by (simp add: small_context)
    have a1: "AggregateRotColL small_rkg small_samples 5 small_crp small_world
        = Inr (small_rkg\<lparr>rot_col_L := [(1, receiver)]\<rparr>, w')"
      unfolding a(1) k by (simp add: small_rkg_def)
    have "map (cell w') [1, 2, 3, 4, 5, 6, 7, 8] = map (cell small_world) [1, 2, 3, 4, 5, 6, 7, 8]"
      using f v by simp
    then have c: "map (cell w') [1, 2, 3, 4, 5, 6, 7, 8] = heap small_world"
      by (simp only: cells)
    have "list_all (\<lambda>(b, a). \<not> valid small_world b \<and> \<not> valid small_world a \<and>
                  valid w' b \<and> valid w' a) receiver"
      unfolding list_all_length using n a(2) by (simp add: case_prod_beta)
    then show ?thesis using a1 a(2,3) c by blast
  qed
  have S: "\<exists>evakey w'. GenShareRotLeft small_perm small_rkg 2 5 small_crp small_world = Inr (evakey, w') \<and>
      length evakey = 2 \<and>
      map (cell w') [2, 3, 4, 5, 6, 7, 8] = tl (heap small_world) \<and>
      distinct evakey \<and>
      list_all (\<lambda>p. \<not> valid small_world p \<and> valid w' p) evakey"
  proof -
    obtain evakey w' where a:
        "GenShareRotLeft small_perm small_rkg 2 5 small_crp small_world = Inr (evakey, w')"
        "length evakey = 2" "distinct evakey"
      and f: "\<forall>p. valid small_world p \<and> p \<noteq> 1 \<longrightarrow> valid w' p \<and> cell w' p = cell small_world p"
      and n: "\<forall>i<2. \<not> valid small_world (evakey ! i) \<and> valid w' (evakey ! i)"
      using th [THEN conjunct2, THEN conjunct1] unfolding B by blast
    have "map (cell w') [2, 3, 4, 5, 6, 7, 8] = map (cell small_world) [2, 3, 4, 5, 6, 7, 8]"
      using f v by simp
    also have "\<dots> = tl (heap small_world)" by (simp add: small_world_def cell_def)
    finally have c: "map (cell w') [2, 3, 4, 5, 6, 7, 8] = tl (heap small_world)" .
    have "list_all (\<lambda>p. \<not> valid small_world p \<and> valid w' p) evakey"
      unfolding list_all_length using n a(2) by simp
    then show ?thesis using a c by blast
  qed
  show ?thesis using small_agg_hyps(1) small_hyps(11,3) A S by blast
qed

end
